theory Spec2Isabelle
  imports Main "HOL-Library.Word"
begin

section \<open>The \<open>cut\<close> loadable builtin (src/builtins/src/cut.c)\<close>

text \<open>
  Bytes are \<open>char\<close>s and buffers are \<open>string\<close>s. A C \<open>int\<close> is a 32-bit signed
  word: positions, field numbers and range bounds wrap around as the machine does
  (overflow of a signed \<open>int\<close> is undefined in C; the theorems that depend on it
  bound the line length). Allocation (\<open>malloc\<close>, \<open>strdup\<close>, \<open>getline\<close>) is taken
  to succeed.
\<close>

subsection \<open>C strings and the libc functions the builtin calls\<close>

type_synonym int32 = "32 word"

definition NUL :: char where
  "NUL = CHR 0x00"

definition LF :: char where
  "LF = CHR 0x0A"

definition INT_MAX :: int32 where
  "INT_MAX = 2147483647"

text \<open>The C string held in a buffer: the bytes left the first NUL.\<close>

definition cstr :: "string \<Rightarrow> string" where
  "cstr buf = takeWhile (\<lambda>c. c \<noteq> NUL) buf"

text \<open>\<open>strlen\<close>.\<close>

definition strlen :: "string \<Rightarrow> nat" where
  "strlen s = length (cstr s)"

text \<open>\<open>strchr(s, c) != NULL\<close>: the terminating NUL counts as part of the string.\<close>

definition strchr_found :: "string \<Rightarrow> char \<Rightarrow> bool" where
  "strchr_found s c = (c = NUL \<or> c \<in> set (cstr s))"

text \<open>\<open>isspace\<close> and \<open>isdigit\<close> in the C locale.\<close>

definition isspace :: "char \<Rightarrow> bool" where
  "isspace c = (c = CHR '' '' \<or> c = CHR 0x09 \<or> c = CHR 0x0A \<or> c = CHR 0x0B
                \<or> c = CHR 0x0C \<or> c = CHR 0x0D)"

definition isdigit :: "char \<Rightarrow> bool" where
  "isdigit c = (48 \<le> (of_char c :: nat) \<and> (of_char c :: nat) \<le> 57)"

fun atoi_digits :: "int \<Rightarrow> string \<Rightarrow> int" where
  "atoi_digits acc [] = acc"
| "atoi_digits acc (c # cs) =
     (if isdigit c then atoi_digits (acc * 10 + (of_char c - 48)) cs else acc)"

definition LONG_MAX :: int where
  "LONG_MAX = 9223372036854775807"

definition LONG_MIN :: int where
  "LONG_MIN = - 9223372036854775808"

text \<open>
  \<open>strtol(s, NULL, 10)\<close>: leading white space, an optional sign, then decimal digits
  up to the first other character; no digits give 0. A value outside the range of
  \<open>long\<close> (64 bits) gives \<open>LONG_MAX\<close> or \<open>LONG_MIN\<close>.
\<close>

definition strtol :: "string \<Rightarrow> int" where
  "strtol s =
     (case dropWhile isspace (cstr s) of
        [] \<Rightarrow> 0
      | c # cs \<Rightarrow>
          max LONG_MIN (min LONG_MAX
            (if c = CHR ''-'' then - atoi_digits 0 cs
             else if c = CHR ''+'' then atoi_digits 0 cs
             else atoi_digits 0 (c # cs))))"

text \<open>\<open>atoi\<close> is \<open>(int) strtol(s, NULL, 10)\<close>: the \<open>long\<close> is cut to its low 32 bits.\<close>

definition atoi :: "string \<Rightarrow> int32" where
  "atoi s = word_of_int (strtol s)"

text \<open>
  \<open>strtok_r(s, delim, &saveptr)\<close> on the rest \<open>s\<close> of the string being tokenised:
  leading delimiter bytes are skipped; at the end of the string the result is \<open>NULL\<close>
  (\<open>None\<close>); otherwise the token runs up to the next delimiter byte, which is
  overwritten with NUL, and \<open>saveptr\<close> is what follows it. \<open>strtok\<close> is the same
  function with the save pointer kept in a static variable.
\<close>

definition strtok_r :: "string \<Rightarrow> string \<Rightarrow> (string \<times> string) option" where
  "strtok_r s delim =
     (let s1 = dropWhile (\<lambda>c. c \<in> set delim) s in
      if s1 = [] then None
      else Some (takeWhile (\<lambda>c. c \<notin> set delim) s1,
                 drop 1 (dropWhile (\<lambda>c. c \<notin> set delim) s1)))"

text \<open>
  \<open>getline\<close> on the unread rest of a stream: \<open>None\<close> is the return value -1 at end
  of file; otherwise the bytes up to and including the first newline (or up to the
  end of the stream), and the rest of the stream.
\<close>

fun read_line :: "string \<Rightarrow> string \<times> string" where
  "read_line [] = ([], [])"
| "read_line (c # cs) =
     (if c = LF then ([c], cs)
      else (c # fst (read_line cs), snd (read_line cs)))"

definition getline :: "string \<Rightarrow> (string \<times> string) option" where
  "getline fp = (if fp = [] then None else Some (read_line fp))"

subsection \<open>Ranges\<close>

record Range =
  r_start :: int32
  r_end :: int32

text \<open>The body of the \<open>while (token)\<close> loop of \<open>parse_ranges\<close>: one token to one range.\<close>

definition parse_token :: "string \<Rightarrow> Range" where
  "parse_token token =
     (if CHR ''-'' \<notin> set token then
        \<lparr>r_start = atoi token, r_end = atoi token\<rparr>
      else
        let left = takeWhile (\<lambda>c. c \<noteq> CHR ''-'') token;
            right = drop 1 (dropWhile (\<lambda>c. c \<noteq> CHR ''-'') token)
        in if left = [] then \<lparr>r_start = 1, r_end = atoi right\<rparr>
           else if right = [] then \<lparr>r_start = atoi left, r_end = INT_MAX\<rparr>
           else \<lparr>r_start = atoi left, r_end = atoi right\<rparr>)"

lemma strtok_r_shorter:
  assumes "strtok_r s delim = Some (token, rest)"
  shows "length rest < length s"
proof -
  define s1 where "s1 = dropWhile (\<lambda>c. c \<in> set delim) s"
  define s2 where "s2 = dropWhile (\<lambda>c. c \<notin> set delim) s1"
  from assms have ne: "s1 \<noteq> []" and r: "rest = drop 1 s2"
    by (simp_all add: strtok_r_def Let_def s1_def s2_def split: if_splits)
  have l2: "length s2 \<le> length s1"
    unfolding s2_def by (rule length_dropWhile_le)
  have l1: "length s1 \<le> length s"
    unfolding s1_def by (rule length_dropWhile_le)
  from ne have pos: "0 < length s1"
    by simp
  have "length rest = length s2 - 1"
    by (simp add: r)
  with l1 l2 pos show ?thesis
    by arith
qed

function parse_tokens :: "string \<Rightarrow> Range list" where
  "parse_tokens s =
     (case strtok_r s '','' of
        None \<Rightarrow> []
      | Some (token, rest) \<Rightarrow> parse_token token # parse_tokens rest)"
  by pat_completeness auto
termination
  by (relation "measure length") (auto dest: strtok_r_shorter)

declare parse_tokens.simps [simp del]

text \<open>
  \<open>parse_ranges\<close>: the linked list of ranges, in the order of the tokens. The empty
  list is the \<open>NULL\<close> the function returns when there is no token.
\<close>

definition parse_ranges :: "string \<Rightarrow> Range list" where
  "parse_ranges list_str = parse_tokens (cstr list_str)"

fun in_range :: "Range list \<Rightarrow> int32 \<Rightarrow> bool" where
  "in_range [] pos = False"
| "in_range (r # ranges) pos =
     (if r_start r \<le>s pos \<and> pos \<le>s r_end r then True else in_range ranges pos)"

subsection \<open>Byte and character mode\<close>

lemma read_line_append: "fst (read_line fp) @ snd (read_line fp) = fp"
  by (induction fp) simp_all

lemma read_line_rest_le: "length (snd (read_line fp)) \<le> length fp"
  by (induction fp) (simp_all add: le_SucI)

lemma read_line_shorter: "fp \<noteq> [] \<Longrightarrow> length (snd (read_line fp)) < length fp"
  using read_line_rest_le [of "tl fp"] by (cases fp) (simp_all add: less_Suc_eq_le)

lemma getline_shorter: "getline fp = Some (line, rest) \<Longrightarrow> length rest < length fp"
  using read_line_shorter [of fp]
  by (auto simp: getline_def split: if_splits)

text \<open>
  The \<open>for\<close> loop of \<open>cut_bytes\<close> over the bytes of one line, from position \<open>pos\<close>:
  the result is what \<open>putchar\<close> writes.
\<close>

fun cut_bytes_for :: "Range list \<Rightarrow> int32 \<Rightarrow> string \<Rightarrow> string" where
  "cut_bytes_for ranges pos [] = []"
| "cut_bytes_for ranges pos (c # cs) =
     (if c = LF \<or> c = NUL then []
      else (if in_range ranges pos then [c] else [])
             @ cut_bytes_for ranges (pos + 1) cs)"

text \<open>
  \<open>cut_bytes\<close> on the unread contents of the stream: the bytes written to standard
  output (the return value is always \<open>EXECUTION_SUCCESS\<close>).
\<close>

function cut_bytes :: "string \<Rightarrow> Range list \<Rightarrow> char \<Rightarrow> string" where
  "cut_bytes fp ranges line_delim =
     (case getline fp of
        None \<Rightarrow> []
      | Some (line, rest) \<Rightarrow>
          cut_bytes_for ranges 1 line @ [line_delim] @ cut_bytes rest ranges line_delim)"
  by pat_completeness auto
termination
  by (relation "measure (\<lambda>(fp, ranges, line_delim). length fp)")
     (auto dest: getline_shorter)

declare cut_bytes.simps [simp del]

subsection \<open>Field mode\<close>

text \<open>\<open>delim[0]\<close>: the first byte of the delimiter string (its NUL when it is empty).\<close>

definition first_byte :: "string \<Rightarrow> char" where
  "first_byte delim = (case delim of [] \<Rightarrow> NUL | c # cs \<Rightarrow> c)"

text \<open>
  The \<open>while (token)\<close> loop of \<open>cut_fields\<close>, entered with the result of the last
  \<open>strtok_r\<close> call: what \<open>printf\<close> writes, and \<open>first_output\<close> at the end.
\<close>

function cut_fields_while ::
  "Range list \<Rightarrow> string \<Rightarrow> (string \<times> string) option \<Rightarrow> int32 \<Rightarrow> bool \<Rightarrow> string \<times> bool"
where
  "cut_fields_while ranges delim None field first_output = ([], first_output)"
| "cut_fields_while ranges delim (Some (token, saveptr)) field first_output =
     (if in_range ranges field then
        (let r = cut_fields_while ranges delim (strtok_r saveptr (cstr delim)) (field + 1) False
         in ((if first_output then [] else cstr delim) @ token @ fst r, snd r))
      else
        cut_fields_while ranges delim (strtok_r saveptr (cstr delim)) (field + 1) first_output)"
  by pat_completeness auto
termination
proof (relation "measure (\<lambda>(ranges, delim, tok, field, first_output).
                    case tok of None \<Rightarrow> 0 | Some (token, saveptr) \<Rightarrow> Suc (length saveptr))")
  show "wf (measure (\<lambda>(ranges, delim, tok, field, first_output).
                    case tok of None \<Rightarrow> 0 | Some (token, saveptr) \<Rightarrow> Suc (length saveptr)))"
    by simp
next
  fix ranges :: "Range list" and delim token saveptr :: string
    and field :: int32 and first_output :: bool
  show "((ranges, delim, strtok_r saveptr (cstr delim), field + 1, False),
         (ranges, delim, Some (token, saveptr), field, first_output))
        \<in> measure (\<lambda>(ranges, delim, tok, field, first_output).
                    case tok of None \<Rightarrow> 0 | Some (token, saveptr) \<Rightarrow> Suc (length saveptr))"
    by (cases "strtok_r saveptr (cstr delim)") (auto dest: strtok_r_shorter)
next
  fix ranges :: "Range list" and delim token saveptr :: string
    and field :: int32 and first_output :: bool
  show "((ranges, delim, strtok_r saveptr (cstr delim), field + 1, first_output),
         (ranges, delim, Some (token, saveptr), field, first_output))
        \<in> measure (\<lambda>(ranges, delim, tok, field, first_output).
                    case tok of None \<Rightarrow> 0 | Some (token, saveptr) \<Rightarrow> Suc (length saveptr))"
    by (cases "strtok_r saveptr (cstr delim)") (auto dest: strtok_r_shorter)
qed

text \<open>
  The body of the \<open>while (getline)\<close> loop of \<open>cut_fields\<close> for the bytes \<open>line0\<close>
  that \<open>getline\<close> returned: the bytes written for this line.
\<close>

definition cut_fields_line ::
  "Range list \<Rightarrow> string \<Rightarrow> bool \<Rightarrow> char \<Rightarrow> string \<Rightarrow> string"
where
  "cut_fields_line ranges delim suppress_no_delim line_delim line0 =
     (let line = (if line0 \<noteq> [] \<and> last line0 = LF then butlast line0 else line0) in
      if \<not> strchr_found line (first_byte delim) then
        (if \<not> suppress_no_delim then cstr line @ [line_delim] else [])
      else
        let r = cut_fields_while ranges delim (strtok_r (cstr line) (cstr delim)) 1 True
        in fst r @ (if \<not> snd r then [line_delim] else []))"

function cut_fields :: "string \<Rightarrow> Range list \<Rightarrow> string \<Rightarrow> bool \<Rightarrow> char \<Rightarrow> string" where
  "cut_fields fp ranges delim suppress_no_delim line_delim =
     (case getline fp of
        None \<Rightarrow> []
      | Some (line, rest) \<Rightarrow>
          cut_fields_line ranges delim suppress_no_delim line_delim line
            @ cut_fields rest ranges delim suppress_no_delim line_delim)"
  by pat_completeness auto
termination
  by (relation "measure (\<lambda>(fp, ranges, delim, suppress_no_delim, line_delim). length fp)")
     (auto dest: getline_shorter)

declare cut_fields.simps [simp del]

subsection \<open>The builtin\<close>

datatype status = EXECUTION_SUCCESS | EXECUTION_FAILURE | EX_USAGE

text \<open>What goes to the error stream: a \<open>builtin_error\<close> message, or the usage text.\<close>

datatype message = builtin_error string | builtin_usage

text \<open>The local variables of \<open>cut_builtin\<close> that the option loop sets.\<close>

record cut_opts =
  range_list :: string
  delimiter :: string
  mode :: int
  suppress_no_delim :: bool
  line_delim :: char

text \<open>
  Their initial values. \<open>range_list\<close> starts as \<open>NULL\<close> and is read only when
  \<open>mode\<close> is not 0, after an option with an argument has set both.
\<close>

definition initial_opts :: cut_opts where
  "initial_opts =
     \<lparr>range_list = [], delimiter = [CHR 0x09], mode = 0,
      suppress_no_delim = False, line_delim = LF\<rparr>"

abbreviation (input) opt_char :: "char \<Rightarrow> int" where
  "opt_char c \<equiv> of_char c"

text \<open>
  The option loop. \<open>internal_getopt\<close> belongs to the shell: the loop is modelled over
  the sequence of its results for the option string \<open>b:c:d:f:sz\<close>, each the option
  character it returns (as an \<open>int\<close>) with \<open>list_optarg\<close>. Any other value, such as
  the \<open>?\<close> of an unknown option or of a missing argument, takes the \<open>default\<close> branch.
  \<open>Inl\<close> is the early \<open>return EX_USAGE\<close> with what was written to the error stream.
\<close>

fun getopt_loop :: "(int \<times> string) list \<Rightarrow> cut_opts \<Rightarrow> message + cut_opts" where
  "getopt_loop [] st = Inr st"
| "getopt_loop ((opt, list_optarg) # rest) st =
     (if opt = opt_char CHR ''b'' \<or> opt = opt_char CHR ''c'' then
        if mode st \<noteq> 0 then Inl (builtin_error ''only one type of list may be specified'')
        else getopt_loop rest (st\<lparr>mode := opt, range_list := list_optarg\<rparr>)
      else if opt = opt_char CHR ''d'' then
        if strlen list_optarg \<noteq> 1 then
          Inl (builtin_error ''the delimiter must be a single character'')
        else getopt_loop rest (st\<lparr>delimiter := list_optarg\<rparr>)
      else if opt = opt_char CHR ''f'' then
        if mode st \<noteq> 0 then Inl (builtin_error ''only one type of list may be specified'')
        else getopt_loop rest (st\<lparr>mode := opt_char CHR ''f'', range_list := list_optarg\<rparr>)
      else if opt = opt_char CHR ''s'' then getopt_loop rest (st\<lparr>suppress_no_delim := True\<rparr>)
      else if opt = opt_char CHR ''z'' then getopt_loop rest (st\<lparr>line_delim := NUL\<rparr>)
      else Inl builtin_usage)"

text \<open>
  What the builtin leaves behind: its return value, the bytes written to standard
  output and the messages written to the error stream.
\<close>

record outcome =
  status :: status
  out :: string
  err :: "message list"

text \<open>
  \<open>fopen(filename, "r")\<close>: the text of \<open>strerror(errno)\<close> when it fails, the
  contents of the file when it succeeds.
\<close>

type_synonym filesystem = "string \<Rightarrow> string + string"

text \<open>The choice between \<open>cut_fields\<close> and \<open>cut_bytes\<close> on one stream.\<close>

definition cut_stream :: "cut_opts \<Rightarrow> Range list \<Rightarrow> string \<Rightarrow> string" where
  "cut_stream st ranges fp =
     (if mode st = opt_char CHR ''f'' then
        cut_fields fp ranges (delimiter st) (suppress_no_delim st) (line_delim st)
      else cut_bytes fp ranges (line_delim st))"

text \<open>
  The \<open>while (list)\<close> loop over the operands. \<open>stdin\<close> is what is still unread of
  standard input (nothing, once a \<open>-\<close> operand has read it to its end), \<open>s\<close> the
  value of \<open>status\<close> so far.
\<close>

fun cut_files ::
  "cut_opts \<Rightarrow> Range list \<Rightarrow> filesystem \<Rightarrow> string list \<Rightarrow> string \<Rightarrow> status \<Rightarrow> outcome"
where
  "cut_files st ranges fopen [] stdin s = \<lparr>status = s, out = [], err = []\<rparr>"
| "cut_files st ranges fopen (filename # list) stdin s =
     (if cstr filename = ''-'' then
        (let r = cut_files st ranges fopen list [] s
         in r\<lparr>out := cut_stream st ranges stdin @ out r\<rparr>)
      else
        case fopen filename of
          Inl e \<Rightarrow>
            (let r = cut_files st ranges fopen list stdin EXECUTION_FAILURE
             in r\<lparr>err := builtin_error (cstr filename @ '': '' @ e) # err r\<rparr>)
        | Inr fp \<Rightarrow>
            (let r = cut_files st ranges fopen list stdin s
             in r\<lparr>out := cut_stream st ranges fp @ out r\<rparr>))"

text \<open>
  \<open>cut_builtin\<close>, given the results of the option scan, the operands left after it
  (\<open>loptend\<close>), the file system and the contents of standard input.
\<close>

definition cut_builtin ::
  "(int \<times> string) list \<Rightarrow> string list \<Rightarrow> filesystem \<Rightarrow> string \<Rightarrow> outcome"
where
  "cut_builtin options list fopen stdin =
     (case getopt_loop options initial_opts of
        Inl m \<Rightarrow> \<lparr>status = EX_USAGE, out = [], err = [m]\<rparr>
      | Inr st \<Rightarrow>
          if mode st = 0 then
            \<lparr>status = EX_USAGE, out = [],
             err = [builtin_error ''you must specify a list of bytes, characters, or fields'']\<rparr>
          else
            let ranges = parse_ranges (range_list st) in
            if ranges = [] then
              \<lparr>status = EX_USAGE, out = [], err = [builtin_error ''invalid range list'']\<rparr>
            else if list = [] then
              \<lparr>status = EXECUTION_SUCCESS, out = cut_stream st ranges stdin, err = []\<rparr>
            else cut_files st ranges fopen list stdin EXECUTION_SUCCESS)"

section \<open>Notions for stating the claims\<close>

text \<open>The options that choose a mode: \<open>-b\<close>, \<open>-c\<close> and \<open>-f\<close>.\<close>

definition mode_option :: "int \<Rightarrow> bool" where
  "mode_option opt = (opt = opt_char CHR ''b'' \<or> opt = opt_char CHR ''c'' \<or> opt = opt_char CHR ''f'')"

text \<open>
  The tokens that repeated calls of \<open>strtok_r\<close> find in a string, in order: the
  fields of a line as \<open>cut_fields\<close> numbers them, from 1.
\<close>

function tokens :: "string \<Rightarrow> string \<Rightarrow> string list" where
  "tokens s delim =
     (case strtok_r s delim of
        None \<Rightarrow> []
      | Some (token, rest) \<Rightarrow> token # tokens rest delim)"
  by pat_completeness auto
termination
  by (relation "measure (\<lambda>(s, delim). length s)") (auto dest: strtok_r_shorter)

declare tokens.simps [simp del]

text \<open>
  The selector list as the specification describes it: a token is \<open>N\<close>, \<open>N-\<close>,
  \<open>-M\<close> or \<open>N-M\<close>, with \<open>N\<close> and \<open>M\<close> written in decimal, and tokens are
  joined by commas. A token denotes an interval of positions, without upper end
  for \<open>N-\<close>. \<open>token_fits\<close>: the numbers of the token are values of an \<open>int\<close>.
\<close>

datatype selector_token = Single nat | From nat | UpTo nat | Between nat nat

definition digit_char :: "nat \<Rightarrow> char" where
  "digit_char d = char_of (48 + d)"

fun decimal :: "nat \<Rightarrow> string" where
  "decimal n = (if n < 10 then [digit_char n] else decimal (n div 10) @ [digit_char (n mod 10)])"

declare decimal.simps [simp del]

fun token_text :: "selector_token \<Rightarrow> string" where
  "token_text (Single n) = decimal n"
| "token_text (From n) = decimal n @ ''-''"
| "token_text (UpTo m) = ''-'' @ decimal m"
| "token_text (Between n m) = decimal n @ ''-'' @ decimal m"

fun selector_text :: "selector_token list \<Rightarrow> string" where
  "selector_text [] = []"
| "selector_text [t] = token_text t"
| "selector_text (t # ts) = token_text t @ '','' @ selector_text ts"

fun denotes :: "selector_token \<Rightarrow> int \<Rightarrow> bool" where
  "denotes (Single n) p = (int n \<le> p \<and> p \<le> int n)"
| "denotes (From n) p = (int n \<le> p)"
| "denotes (UpTo m) p = (1 \<le> p \<and> p \<le> int m)"
| "denotes (Between n m) p = (int n \<le> p \<and> p \<le> int m)"

fun token_fits :: "selector_token \<Rightarrow> bool" where
  "token_fits (Single n) = (n \<le> 2147483647)"
| "token_fits (From n) = (n \<le> 2147483647)"
| "token_fits (UpTo m) = (m \<le> 2147483647)"
| "token_fits (Between n m) = (n \<le> 2147483647 \<and> m \<le> 2147483647)"

section \<open>Reading lines\<close>

lemma read_line_no_LF: "LF \<notin> set line \<Longrightarrow> read_line line = (line, [])"
  by (induction line) auto

lemma read_line_LF: "LF \<notin> set line \<Longrightarrow> read_line (line @ LF # rest) = (line @ [LF], rest)"
  by (induction line) auto

lemma getline_line: "LF \<notin> set line \<Longrightarrow> getline (line @ LF # rest) = Some (line @ [LF], rest)"
  by (simp add: getline_def read_line_LF)

lemma getline_last: "LF \<notin> set line \<Longrightarrow> line \<noteq> [] \<Longrightarrow> getline line = Some (line, [])"
  by (simp add: getline_def read_line_no_LF)

lemma getline_eof: "getline [] = None"
  by (simp add: getline_def)

lemma cut_bytes_eof: "cut_bytes [] ranges ld = []"
  by (simp add: cut_bytes.simps getline_eof)

lemma cut_fields_eof: "cut_fields [] ranges delim s ld = []"
  by (simp add: cut_fields.simps getline_eof)

lemma cut_bytes_for_stop:
  "c = LF \<or> c = NUL \<Longrightarrow> cut_bytes_for ranges pos (pre @ c # post) = cut_bytes_for ranges pos pre"
  by (induction pre arbitrary: pos) auto

lemma cut_bytes_line:
  "LF \<notin> set line \<Longrightarrow>
   cut_bytes (line @ LF # rest) ranges ld =
     cut_bytes_for ranges 1 line @ ld # cut_bytes rest ranges ld"
  by (subst cut_bytes.simps) (simp add: getline_line cut_bytes_for_stop)

lemma cut_bytes_last:
  "LF \<notin> set line \<Longrightarrow> line \<noteq> [] \<Longrightarrow>
   cut_bytes line ranges ld = cut_bytes_for ranges 1 line @ [ld]"
  by (subst cut_bytes.simps) (simp add: getline_last cut_bytes_eof)

lemma cut_fields_stream_line:
  "LF \<notin> set line \<Longrightarrow>
   cut_fields (line @ LF # rest) ranges delim s ld =
     cut_fields_line ranges delim s ld (line @ [LF])
       @ cut_fields rest ranges delim s ld"
  by (subst cut_fields.simps) (simp add: getline_line)

lemma cut_fields_stream_last:
  "LF \<notin> set line \<Longrightarrow> line \<noteq> [] \<Longrightarrow>
   cut_fields line ranges delim s ld = cut_fields_line ranges delim s ld line"
  by (subst cut_fields.simps) (simp add: getline_last cut_fields_eof)

lemma last_not_LF: "LF \<notin> set line \<Longrightarrow> line \<noteq> [] \<Longrightarrow> last line \<noteq> LF"
proof
  assume a: "LF \<notin> set line" "line \<noteq> []" and b: "last line = LF"
  from a(2) have "last line \<in> set line"
    by (rule last_in_set)
  with a(1) b show False
    by simp
qed

lemma cut_fields_line_chomp:
  "LF \<notin> set line \<Longrightarrow>
   cut_fields_line ranges delim s ld (line @ [LF]) =
   cut_fields_line ranges delim s ld line"
  by (cases "line = []") (simp_all add: cut_fields_line_def last_not_LF)

lemma cut_fields_line_text:
  "LF \<notin> set line \<Longrightarrow>
   cut_fields_line ranges delim s ld line =
     (if \<not> strchr_found line (first_byte delim) then
        (if \<not> s then cstr line @ [ld] else [])
      else
        fst (cut_fields_while ranges delim (strtok_r (cstr line) (cstr delim)) 1 True)
        @ (if \<not> snd (cut_fields_while ranges delim (strtok_r (cstr line) (cstr delim)) 1 True)
           then [ld] else []))"
  by (cases "line = []") (simp_all add: cut_fields_line_def last_not_LF Let_def)

section \<open>Byte mode, line by line\<close>

lemma cut_bytes_for_select:
  "LF \<notin> set line \<Longrightarrow> NUL \<notin> set line \<Longrightarrow>
   cut_bytes_for ranges (of_nat k) line =
     map snd (filter (\<lambda>(i, c). in_range ranges (of_nat i)) (enumerate k line))"
proof (induction line arbitrary: k)
  case Nil
  then show ?case by simp
next
  case (Cons c line)
  have next_pos: "(of_nat k :: int32) + 1 = of_nat (Suc k)"
    by simp
  from Cons.prems have "c \<noteq> LF" "c \<noteq> NUL" "LF \<notin> set line" "NUL \<notin> set line"
    by auto
  with Cons.IH [of "Suc k"] show ?case
    by (simp only: cut_bytes_for.simps next_pos enumerate_simps) simp
qed

lemma cstr_append_NUL: "cstr (pre @ NUL # post) = cstr pre"
  by (induction pre) (simp_all add: cstr_def)

lemma cstr_no_NUL: "NUL \<notin> set (cstr buf)"
  unfolding cstr_def by (induction buf) auto

lemma cstr_id: "NUL \<notin> set s \<Longrightarrow> cstr s = s"
  unfolding cstr_def by (induction s) auto

lemma set_cstr_subset: "set (cstr buf) \<subseteq> set buf"
  unfolding cstr_def by (auto dest: set_takeWhileD)

lemma cut_bytes_for_cstr:
  "cut_bytes_for ranges pos line = cut_bytes_for ranges pos (cstr line)"
  by (induction line arbitrary: pos) (simp_all add: cstr_def)

section \<open>Positions and fields\<close>

lemma sint_of_nat_int32: "n < 2147483648 \<Longrightarrow> sint (of_nat n :: int32) = int n"
  by (simp add: signed_of_nat signed_take_bit_int_eq_self)

lemma in_full_range:
  "0 < n \<Longrightarrow> n < 2147483648 \<Longrightarrow> in_range [\<lparr>r_start = 1, r_end = INT_MAX\<rparr>] (of_nat n)"
  by (simp add: word_sle_eq sint_of_nat_int32 INT_MAX_def)

lemma parse_full_range: "parse_ranges ''1-'' = [\<lparr>r_start = 1, r_end = INT_MAX\<rparr>]"
  by code_simp

lemma strlen_1: "strlen delim = 1 \<Longrightarrow> first_byte delim \<noteq> NUL \<and> cstr delim = [first_byte delim]"
  by (cases delim) (auto simp: strlen_def cstr_def first_byte_def split: if_splits)

text \<open>The tokens still to come when the loop is entered with \<open>tok\<close>.\<close>

lemma cut_fields_while_none_selected:
  "\<forall>j < length (case tok of None \<Rightarrow> [] | Some (token, saveptr) \<Rightarrow> token # tokens saveptr (cstr delim)).
      \<not> in_range ranges (field + of_nat j)
   \<Longrightarrow> cut_fields_while ranges delim tok field first_output = ([], first_output)"
proof (induction ranges delim tok field first_output rule: cut_fields_while.induct)
  case (1 ranges delim field first_output)
  then show ?case by simp
next
  case (2 ranges delim token saveptr field first_output)
  let ?next = "strtok_r saveptr (cstr delim)"
  from "2.prems" have here: "\<not> in_range ranges field"
    by auto
  have later: "\<forall>j < length (case ?next of None \<Rightarrow> [] | Some (token, saveptr) \<Rightarrow> token # tokens saveptr (cstr delim)).
      \<not> in_range ranges (field + 1 + of_nat j)"
  proof (intro allI impI)
    fix j
    assume "j < length (case ?next of None \<Rightarrow> [] | Some (token, saveptr) \<Rightarrow> token # tokens saveptr (cstr delim))"
    then have lt: "Suc j < Suc (length (tokens saveptr (cstr delim)))"
      by (subst tokens.simps) (simp split: option.splits)
    from "2.prems"
    have "\<And>i. i < Suc (length (tokens saveptr (cstr delim)))
            \<Longrightarrow> \<not> in_range ranges (field + of_nat i)"
      by simp
    from this [OF lt] show "\<not> in_range ranges (field + 1 + of_nat j)"
      by (simp add: add.assoc)
  qed
  from "2.IH"(2) [OF here later] here show ?case
    by simp
qed

lemma cut_bytes_for_no_terminator:
  "ld = LF \<or> ld = NUL \<Longrightarrow> ld \<notin> set (cut_bytes_for ranges pos line)"
  by (induction line arbitrary: pos) auto

lemma cut_bytes_for_none_selected:
  "\<forall>k < length (cstr line). \<not> in_range ranges (pos + of_nat k)
   \<Longrightarrow> cut_bytes_for ranges pos line = []"
proof (induction line arbitrary: pos)
  case Nil
  then show ?case by simp
next
  case (Cons c line)
  show ?case
  proof (cases "c = LF \<or> c = NUL")
    case True
    then show ?thesis by auto
  next
    case False
    then have len: "length (cstr (c # line)) = Suc (length (cstr line))"
      by (simp add: cstr_def)
    from Cons.prems len have all: "\<And>i. i < Suc (length (cstr line)) \<Longrightarrow> \<not> in_range ranges (pos + of_nat i)"
      by simp
    from all [of 0] have here: "\<not> in_range ranges pos"
      by simp
    have "\<forall>k < length (cstr line). \<not> in_range ranges (pos + 1 + of_nat k)"
    proof (intro allI impI)
      fix k
      assume "k < length (cstr line)"
      then have "Suc k < Suc (length (cstr line))"
        by simp
      from all [OF this] show "\<not> in_range ranges (pos + 1 + of_nat k)"
        by (simp add: add.assoc)
    qed
    from Cons.IH [OF this] here False show ?thesis
      by simp
  qed
qed

lemma filter_enumerate_all:
  "\<forall>x \<in> set xs. P x \<Longrightarrow> filter P xs = xs"
  by (induction xs) auto

lemma cut_bytes_selected:
  assumes "LF \<notin> set line"
  shows "cut_bytes (line @ LF # rest) ranges ld =
           map snd (filter (\<lambda>(i, c). in_range ranges (of_nat i)) (enumerate 1 (cstr line)))
             @ ld # cut_bytes rest ranges ld
       \<and> (line \<noteq> [] \<longrightarrow>
           cut_bytes line ranges ld =
             map snd (filter (\<lambda>(i, c). in_range ranges (of_nat i)) (enumerate 1 (cstr line)))
               @ [ld])"
proof -
  have "LF \<notin> set (cstr line)"
    using assms set_cstr_subset [of line] by auto
  then have "cut_bytes_for ranges (of_nat 1) (cstr line) =
      map snd (filter (\<lambda>(i, c). in_range ranges (of_nat i)) (enumerate 1 (cstr line)))"
    using cstr_no_NUL by (rule cut_bytes_for_select)
  then have "cut_bytes_for ranges 1 line =
      map snd (filter (\<lambda>(i, c). in_range ranges (of_nat i)) (enumerate 1 (cstr line)))"
    using cut_bytes_for_cstr [of ranges 1 line] by simp
  with cut_bytes_line [OF assms] cut_bytes_last [OF assms] show ?thesis
    by simp
qed

subsection \<open>The bytes that field mode can write\<close>

lemma strtok_r_chars:
  assumes "strtok_r s delim = Some (token, rest)"
  shows "set token \<subseteq> set s \<and> set rest \<subseteq> set s"
proof -
  define s1 where "s1 = dropWhile (\<lambda>c. c \<in> set delim) s"
  from assms have t: "token = takeWhile (\<lambda>c. c \<notin> set delim) s1"
    and r: "rest = drop 1 (dropWhile (\<lambda>c. c \<notin> set delim) s1)"
    by (simp_all add: strtok_r_def Let_def s1_def split: if_splits)
  have "set s1 \<subseteq> set s"
    unfolding s1_def by (auto dest: set_dropWhileD)
  moreover have "set token \<subseteq> set s1"
    unfolding t by (auto dest: set_takeWhileD)
  moreover have "set rest \<subseteq> set s1"
    unfolding r by (auto dest: in_set_dropD set_dropWhileD)
  ultimately show ?thesis
    by blast
qed

lemma cut_fields_while_chars:
  "(case tok of None \<Rightarrow> True | Some (token, saveptr) \<Rightarrow> set token \<subseteq> S \<and> set saveptr \<subseteq> S)
   \<Longrightarrow> set (cstr delim) \<subseteq> S
   \<Longrightarrow> set (fst (cut_fields_while ranges delim tok field first_output)) \<subseteq> S"
proof (induction ranges delim tok field first_output rule: cut_fields_while.induct)
  case (1 ranges delim field first_output)
  then show ?case by simp
next
  case (2 ranges delim token saveptr field first_output)
  let ?next = "strtok_r saveptr (cstr delim)"
  from "2.prems" have tok: "set token \<subseteq> S" and sp: "set saveptr \<subseteq> S"
    by simp_all
  have nxt: "case ?next of None \<Rightarrow> True
              | Some (token, saveptr) \<Rightarrow> set token \<subseteq> S \<and> set saveptr \<subseteq> S"
  proof (cases ?next)
    case None
    then show ?thesis by simp
  next
    case (Some p)
    obtain t r where p: "p = (t, r)" by (cases p)
    from strtok_r_chars [of saveptr "cstr delim" t r] Some p sp show ?thesis
      by auto
  qed
  show ?case
  proof (cases "in_range ranges field")
    case True
    from "2.IH"(1) [OF True nxt "2.prems"(2)] True tok "2.prems"(2) show ?thesis
      by (auto simp: Let_def)
  next
    case False
    from "2.IH"(2) [OF False nxt "2.prems"(2)] False show ?thesis
      by simp
  qed
qed

text \<open>
  What field mode writes for a line without newline or with its newline taken off:
  a body without newline and NUL bytes, then the terminator or nothing, neither
  depending on the terminator.
\<close>

lemma cut_fields_line_shape:
  assumes "LF \<notin> set line" and "strlen delim = 1"
  shows "\<exists>body t. (\<forall>ld. cut_fields_line ranges delim s ld line = body @ (if t then [ld] else []))
                  \<and> LF \<notin> set body \<and> NUL \<notin> set body"
proof (cases "strchr_found line (first_byte delim)")
  case False
  have "LF \<notin> set (cstr line)"
    using assms(1) set_cstr_subset [of line] by auto
  with False show ?thesis
    by (intro exI [of _ "if s then [] else cstr line"] exI [of _ "\<not> s"])
       (simp add: cut_fields_line_text [OF assms(1)] cstr_no_NUL)
next
  case True
  let ?r = "cut_fields_while ranges delim (strtok_r (cstr line) (cstr delim)) 1 True"
  from assms(2) have d: "first_byte delim \<noteq> NUL" "cstr delim = [first_byte delim]"
    by (simp_all add: strlen_1)
  with True have "first_byte delim \<in> set (cstr line)"
    by (simp add: strchr_found_def)
  with d have sub: "set (cstr delim) \<subseteq> set (cstr line)"
    by simp
  have "case strtok_r (cstr line) (cstr delim) of None \<Rightarrow> True
        | Some (token, saveptr) \<Rightarrow> set token \<subseteq> set (cstr line) \<and> set saveptr \<subseteq> set (cstr line)"
    by (auto split: option.splits dest: strtok_r_chars)
  then have "set (fst ?r) \<subseteq> set (cstr line)"
    using sub by (rule cut_fields_while_chars)
  moreover have "LF \<notin> set (cstr line)"
    using assms(1) set_cstr_subset [of line] by auto
  ultimately have "LF \<notin> set (fst ?r)" "NUL \<notin> set (fst ?r)"
    using cstr_no_NUL [of line] by auto
  with True show ?thesis
    by (intro exI [of _ "fst ?r"] exI [of _ "\<not> snd ?r"])
       (simp add: cut_fields_line_text [OF assms(1)])
qed

lemma read_line_shape:
  "LF \<notin> set (fst (read_line fp))
   \<or> (\<exists>line. fst (read_line fp) = line @ [LF] \<and> LF \<notin> set line)"
proof (induction fp)
  case Nil
  then show ?case by simp
next
  case (Cons c fp)
  show ?case
  proof (cases "c = LF")
    case True
    then show ?thesis by simp
  next
    case False
    with Cons.IH show ?thesis
      by auto
  qed
qed

lemma getline_shape:
  assumes "getline fp = Some (l, rest)"
  shows "LF \<notin> set l \<or> (\<exists>line. l = line @ [LF] \<and> LF \<notin> set line)"
proof -
  from assms have "l = fst (read_line fp)"
    by (auto simp: getline_def split: if_splits)
  with read_line_shape [of fp] show ?thesis
    by simp
qed

lemma cut_fields_getline_shape:
  assumes "getline fp = Some (l, rest)" and "strlen delim = 1"
  shows "\<exists>body t. (\<forall>ld. cut_fields_line ranges delim s ld l = body @ (if t then [ld] else []))
                  \<and> LF \<notin> set body \<and> NUL \<notin> set body"
proof -
  from getline_shape [OF assms(1)]
  consider "LF \<notin> set l" | line where "l = line @ [LF]" "LF \<notin> set line"
    by blast
  then show ?thesis
  proof cases
    case 1
    then show ?thesis
      using assms(2) by (rule cut_fields_line_shape)
  next
    case 2
    from cut_fields_line_shape [OF 2(2) assms(2)] show ?thesis
      unfolding 2(1) cut_fields_line_chomp [OF 2(2)] .
  qed
qed

subsection \<open>The terminator in the output of a stream\<close>

lemma map_terminator_body:
  "LF \<notin> set body \<Longrightarrow> map (\<lambda>c. if c = LF then NUL else c) body = body"
  by (induction body) auto

lemma cut_bytes_z:
  "cut_bytes fp ranges NUL = map (\<lambda>c. if c = LF then NUL else c) (cut_bytes fp ranges LF)
   \<and> NUL \<notin> set (cut_bytes fp ranges LF)"
proof (induction "length fp" arbitrary: fp rule: less_induct)
  case less
  show ?case
  proof (cases "getline fp")
    case None
    then show ?thesis
      by (simp add: cut_bytes.simps [of fp])
  next
    case (Some p)
    obtain l rest where p: "p = (l, rest)" by (cases p)
    have b: "LF \<notin> set (cut_bytes_for ranges 1 l)" "NUL \<notin> set (cut_bytes_for ranges 1 l)"
      by (simp_all add: cut_bytes_for_no_terminator)
    have n: "NUL \<noteq> LF"
      by (simp add: NUL_def LF_def)
    from Some p have "length rest < length fp"
      by (auto dest: getline_shorter)
    from less.hyps [OF this] Some p b n show ?thesis
      by (simp add: cut_bytes.simps [of fp] map_terminator_body)
  qed
qed

lemma cut_fields_z:
  "strlen delim = 1 \<Longrightarrow>
   cut_fields fp ranges delim s NUL =
     map (\<lambda>c. if c = LF then NUL else c) (cut_fields fp ranges delim s LF)
   \<and> NUL \<notin> set (cut_fields fp ranges delim s LF)"
proof (induction "length fp" arbitrary: fp rule: less_induct)
  case less
  show ?case
  proof (cases "getline fp")
    case None
    then show ?thesis
      by (simp add: cut_fields.simps [of fp])
  next
    case (Some p)
    obtain l rest where p: "p = (l, rest)" by (cases p)
    from Some p have g: "getline fp = Some (l, rest)"
      by simp
    obtain body t
      where line: "\<And>ld. cut_fields_line ranges delim s ld l = body @ (if t then [ld] else [])"
        and b: "LF \<notin> set body" "NUL \<notin> set body"
      using cut_fields_getline_shape [OF g less.prems] by blast
    have n: "NUL \<noteq> LF"
      by (simp add: NUL_def LF_def)
    from g have "length rest < length fp"
      by (rule getline_shorter)
    from less.hyps [OF this less.prems] g b n show ?thesis
      by (simp add: cut_fields.simps [of fp] line map_terminator_body)
  qed
qed


subsection \<open>The option loop and \<open>-z\<close>\<close>

lemma getopt_loop_line_delim:
  "\<forall>(opt, a) \<in> set options. opt \<noteq> opt_char CHR ''z'' \<Longrightarrow>
   getopt_loop options (st\<lparr>line_delim := x\<rparr>) =
     (case getopt_loop options st of
        Inl m \<Rightarrow> Inl m
      | Inr st' \<Rightarrow> Inr (st'\<lparr>line_delim := x\<rparr>))"
proof (induction options arbitrary: st)
  case Nil
  then show ?case by simp
next
  case (Cons o1 options)
  obtain opt a where o1: "o1 = (opt, a)" by (cases o1)
  from Cons.prems o1 have nz: "opt \<noteq> opt_char CHR ''z''"
    and rest: "\<forall>(opt, a) \<in> set options. opt \<noteq> opt_char CHR ''z''"
    by simp_all
  note IH = Cons.IH [OF rest]
  have c1: "st\<lparr>line_delim := x, mode := m, range_list := r\<rparr>
              = st\<lparr>mode := m, range_list := r, line_delim := x\<rparr>" for m r
    by simp
  have c2: "st\<lparr>line_delim := x, delimiter := d\<rparr> = st\<lparr>delimiter := d, line_delim := x\<rparr>" for d
    by simp
  have c3: "st\<lparr>line_delim := x, suppress_no_delim := True\<rparr>
              = st\<lparr>suppress_no_delim := True, line_delim := x\<rparr>"
    by simp
  show ?case
    unfolding o1 using nz
    by (simp only: getopt_loop.simps c1 c2 c3 IH) simp
qed

lemma getopt_loop_z:
  "getopt_loop options st =
     (case getopt_loop (filter (\<lambda>(opt, a). opt \<noteq> opt_char CHR ''z'') options) st of
        Inl m \<Rightarrow> Inl m
      | Inr st' \<Rightarrow>
          Inr (if \<exists>a. (opt_char CHR ''z'', a) \<in> set options then st'\<lparr>line_delim := NUL\<rparr>
               else st'))"
proof (induction options arbitrary: st)
  case Nil
  then show ?case by simp
next
  case (Cons o1 options)
  obtain opt a where o1: "o1 = (opt, a)" by (cases o1)
  let ?nz = "filter (\<lambda>(opt, a). opt \<noteq> opt_char CHR ''z'') options"
  show ?case
  proof (cases "opt = opt_char CHR ''z''")
    case True
    have nz: "\<forall>(opt, a) \<in> set ?nz. opt \<noteq> opt_char CHR ''z''"
      by auto
    have "getopt_loop (o1 # options) st = getopt_loop options (st\<lparr>line_delim := NUL\<rparr>)"
      unfolding o1 using True by simp
    also have "\<dots> = (case getopt_loop ?nz (st\<lparr>line_delim := NUL\<rparr>) of
        Inl m \<Rightarrow> Inl m
      | Inr st' \<Rightarrow>
          Inr (if \<exists>a. (opt_char CHR ''z'', a) \<in> set options then st'\<lparr>line_delim := NUL\<rparr>
               else st'))"
      by (rule Cons.IH)
    also have "\<dots> = (case getopt_loop ?nz st of
        Inl m \<Rightarrow> Inl m
      | Inr st' \<Rightarrow> Inr (st'\<lparr>line_delim := NUL\<rparr>))"
      unfolding getopt_loop_line_delim [OF nz] by (simp split: sum.splits)
    finally show ?thesis
      unfolding o1 using True by (auto split: sum.splits)
  next
    case False
    then have ex: "(\<exists>b. (opt_char CHR ''z'', b) \<in> set (o1 # options))
                 = (\<exists>b. (opt_char CHR ''z'', b) \<in> set options)"
      unfolding o1 by auto
    define hz where "hz = (\<exists>b. (opt_char CHR ''z'', b) \<in> set options)"
    define R where "R = (\<lambda>st. case getopt_loop ?nz st of
        Inl m \<Rightarrow> Inl m
      | Inr st' \<Rightarrow> Inr (if hz then st'\<lparr>line_delim := NUL\<rparr> else st'))"
    have IH: "getopt_loop options st = R st" for st
      unfolding R_def hz_def by (rule Cons.IH)
    have keep: "filter (\<lambda>(opt, a). opt \<noteq> opt_char CHR ''z'') (o1 # options) = (opt, a) # ?nz"
      unfolding o1 using False by simp
    have "getopt_loop ((opt, a) # options) st =
        (case getopt_loop ((opt, a) # ?nz) st of
           Inl m \<Rightarrow> Inl m
         | Inr st' \<Rightarrow> Inr (if hz then st'\<lparr>line_delim := NUL\<rparr> else st'))"
      using False by (auto simp: IH R_def)
    then show ?thesis
      unfolding ex keep hz_def unfolding o1 .
  qed
qed

lemma getopt_loop_no_z:
  "\<forall>(opt, a) \<in> set options. opt \<noteq> opt_char CHR ''z'' \<Longrightarrow>
   getopt_loop options st = Inr st' \<Longrightarrow> line_delim st' = line_delim st"
  by (induction options arbitrary: st) (auto split: if_splits)

lemma getopt_loop_delimiter:
  "getopt_loop options st = Inr st' \<Longrightarrow> strlen (delimiter st) = 1
   \<Longrightarrow> strlen (delimiter st') = 1"
  by (induction options arbitrary: st) (auto split: if_splits)


lemma cut_stream_z:
  assumes "strlen (delimiter st) = 1" and "line_delim st = LF"
  shows "cut_stream (st\<lparr>line_delim := NUL\<rparr>) ranges fp =
           map (\<lambda>c. if c = LF then NUL else c) (cut_stream st ranges fp)
       \<and> NUL \<notin> set (cut_stream st ranges fp)"
  using cut_fields_z [OF assms(1), of fp ranges "suppress_no_delim st"] cut_bytes_z [of fp ranges]
  by (simp add: cut_stream_def assms(2))

lemma cut_files_z:
  assumes "strlen (delimiter st) = 1" and "line_delim st = LF"
  shows "status (cut_files (st\<lparr>line_delim := NUL\<rparr>) ranges fopen list stdin s) =
           status (cut_files st ranges fopen list stdin s)
       \<and> err (cut_files (st\<lparr>line_delim := NUL\<rparr>) ranges fopen list stdin s) =
           err (cut_files st ranges fopen list stdin s)
       \<and> out (cut_files (st\<lparr>line_delim := NUL\<rparr>) ranges fopen list stdin s) =
           map (\<lambda>c. if c = LF then NUL else c) (out (cut_files st ranges fopen list stdin s))
       \<and> NUL \<notin> set (out (cut_files st ranges fopen list stdin s))"
proof (induction list arbitrary: stdin s)
  case Nil
  then show ?case by simp
next
  case (Cons filename list)
  note z = cut_stream_z [OF assms]
  show ?case
  proof (cases "cstr filename = ''-''")
    case True
    with Cons.IH [of "[]" s] z [of ranges stdin] show ?thesis
      by (simp add: Let_def)
  next
    case False
    show ?thesis
    proof (cases "fopen filename")
      case (Inl e)
      with False Cons.IH [of stdin EXECUTION_FAILURE] show ?thesis
        by (simp add: Let_def)
    next
      case (Inr fp)
      with False Cons.IH [of stdin s] z [of ranges fp] show ?thesis
        by (simp add: Let_def)
    qed
  qed
qed

lemma cut_builtin_z:
  assumes "getopt_loop nz initial_opts = r"
    and "getopt_loop options initial_opts =
           (case r of Inl m \<Rightarrow> Inl m | Inr st \<Rightarrow> Inr (st\<lparr>line_delim := NUL\<rparr>))"
    and "\<And>st. r = Inr st \<Longrightarrow> line_delim st = LF \<and> strlen (delimiter st) = 1"
  shows "status (cut_builtin options list fopen stdin) = status (cut_builtin nz list fopen stdin)
       \<and> err (cut_builtin options list fopen stdin) = err (cut_builtin nz list fopen stdin)
       \<and> out (cut_builtin options list fopen stdin) =
           map (\<lambda>c. if c = LF then NUL else c) (out (cut_builtin nz list fopen stdin))
       \<and> NUL \<notin> set (out (cut_builtin nz list fopen stdin))"
proof (cases r)
  case (Inl m)
  with assms(1,2) show ?thesis
    by (simp add: cut_builtin_def)
next
  case (Inr st)
  from assms(3) [OF Inr] have ld: "line_delim st = LF" and d: "strlen (delimiter st) = 1"
    by simp_all
  from assms(1,2) Inr
  have nz: "getopt_loop nz initial_opts = Inr st"
    and z: "getopt_loop options initial_opts = Inr (st\<lparr>line_delim := NUL\<rparr>)"
    by simp_all
  show ?thesis
    using cut_stream_z [OF d ld, of "parse_ranges (range_list st)" stdin]
      cut_files_z [OF d ld, of "parse_ranges (range_list st)" fopen list stdin EXECUTION_SUCCESS]
    by (simp add: cut_builtin_def nz z Let_def)
qed

section \<open>Field mode on concrete lines\<close>

text \<open>
  Claim C1. The claim: in field mode the line is split at every occurrence of the
  delimiter, consecutive delimiters give an empty field, so that \<open>a,,b\<close> has the
  three fields \<open>a\<close>, the empty string and \<open>b\<close>. The code at this input: \<open>strtok_r\<close>
  skips the empty field, so that field 2 of \<open>a,,b\<close> is \<open>b\<close>, there is no field 3
  (nothing at all is written for the line), and selecting every field writes \<open>a,b\<close>.
\<close>

theorem cut_fields_skips_empty_field:
  "cut_builtin [(opt_char CHR ''d'', '',''), (opt_char CHR ''f'', ''2'')] [] fopen ''a,,b\<newline>''
     = \<lparr>status = EXECUTION_SUCCESS, out = ''b\<newline>'', err = []\<rparr>
   \<and> cut_builtin [(opt_char CHR ''d'', '',''), (opt_char CHR ''f'', ''3'')] [] fopen ''a,,b\<newline>''
     = \<lparr>status = EXECUTION_SUCCESS, out = [], err = []\<rparr>
   \<and> cut_builtin [(opt_char CHR ''d'', '',''), (opt_char CHR ''f'', ''1-'')] [] fopen ''a,,b\<newline>''
     = \<lparr>status = EXECUTION_SUCCESS, out = ''a,b\<newline>'', err = []\<rparr>"
  by code_simp

text \<open>
  Claim C2, as stated, fails in its last part: with delimiter \<open>,\<close> and the input line
  \<open>a,b,c\<close>, the selector \<open>5\<close> does not give an empty output line (a terminator
  alone).
\<close>

theorem cut_fields_out_of_range_counterexample:
  "cut_fields ''a,b,c\<newline>'' (parse_ranges ''5'') '','' False LF \<noteq> [LF]"
  by code_simp

text \<open>
  Claim C2, amended. With delimiter \<open>,\<close> and the input line \<open>a,b,c\<close>: the selector
  \<open>1,3\<close> gives the output line \<open>a,c\<close>, the selector \<open>2\<close> gives \<open>b\<close>, and the
  selector \<open>5\<close>, which selects no field, gives no output at all, not even the
  terminator.
\<close>

theorem cut_fields_round_trip:
  "cut_builtin [(opt_char CHR ''d'', '',''), (opt_char CHR ''f'', ''1,3'')] [] fopen ''a,b,c\<newline>''
     = \<lparr>status = EXECUTION_SUCCESS, out = ''a,c\<newline>'', err = []\<rparr>
   \<and> cut_builtin [(opt_char CHR ''d'', '',''), (opt_char CHR ''f'', ''2'')] [] fopen ''a,b,c\<newline>''
     = \<lparr>status = EXECUTION_SUCCESS, out = ''b\<newline>'', err = []\<rparr>
   \<and> cut_builtin [(opt_char CHR ''d'', '',''), (opt_char CHR ''f'', ''5'')] [] fopen ''a,b,c\<newline>''
     = \<lparr>status = EXECUTION_SUCCESS, out = [], err = []\<rparr>"
  by code_simp

section \<open>Selector lists\<close>

subsection \<open>Decimal numerals and \<open>atoi\<close>\<close>

lemma of_char_digit: "d < 10 \<Longrightarrow> (of_char (digit_char d) :: nat) = 48 + d"
  by (simp add: digit_char_def)

lemma of_char_digit_int: "d < 10 \<Longrightarrow> (of_char (digit_char d) :: int) = 48 + int d"
proof -
  assume "d < 10"
  then have "int (of_char (digit_char d)) = int (48 + d)"
    by (simp only: of_char_digit)
  then show ?thesis
    by (simp add: of_nat_of_char)
qed

lemma isdigit_digit_char: "d < 10 \<Longrightarrow> isdigit (digit_char d)"
  by (simp add: isdigit_def of_char_digit)

lemma isdigit_not_special:
  "isdigit c \<Longrightarrow>
   c \<noteq> NUL \<and> c \<noteq> CHR ''-'' \<and> c \<noteq> CHR ''+'' \<and> c \<noteq> CHR '','' \<and> \<not> isspace c"
  by (auto simp: isdigit_def isspace_def NUL_def)

lemma decimal_digits: "decimal n \<noteq> [] \<and> (\<forall>c \<in> set (decimal n). isdigit c)"
proof (induction n rule: decimal.induct)
  case (1 n)
  show ?case
  proof (cases "n < 10")
    case True
    then show ?thesis
      by (subst (1 2) decimal.simps) (simp add: isdigit_digit_char)
  next
    case False
    with "1.IH" show ?thesis
      by (subst (1 2) decimal.simps) (simp add: isdigit_digit_char)
  qed
qed

lemma atoi_digits_snoc:
  "\<forall>c \<in> set ds. isdigit c \<Longrightarrow> isdigit d \<Longrightarrow>
   atoi_digits acc (ds @ [d]) = atoi_digits acc ds * 10 + (of_char d - 48)"
  by (induction ds arbitrary: acc) simp_all

lemma atoi_digits_decimal: "atoi_digits 0 (decimal n) = int n"
proof (induction n rule: decimal.induct)
  case (1 n)
  show ?case
  proof (cases "n < 10")
    case True
    then show ?thesis
      by (subst decimal.simps) (simp add: isdigit_digit_char of_char_digit_int)
  next
    case False
    have d: "isdigit (digit_char (n mod 10))"
      by (simp add: isdigit_digit_char)
    have "atoi_digits 0 (decimal (n div 10) @ [digit_char (n mod 10)])
            = int (n div 10) * 10 + int (n mod 10)"
      using decimal_digits [of "n div 10"] d "1.IH" [OF False]
      by (simp add: atoi_digits_snoc of_char_digit_int)
    also have "\<dots> = int n"
      by (simp add: zdiv_int zmod_int)
    finally show ?thesis
      using False by (subst decimal.simps) simp
  qed
qed

lemma cstr_digits: "\<forall>c \<in> set ds. isdigit c \<Longrightarrow> cstr ds = ds"
  by (rule cstr_id) (auto dest: isdigit_not_special)

lemma atoi_decimal:
  assumes "n \<le> 2147483647"
  shows "atoi (decimal n) = of_nat n"
proof -
  obtain c cs where d: "decimal n = c # cs"
    using decimal_digits [of n] by (cases "decimal n") auto
  with decimal_digits [of n] have c: "isdigit c"
    by auto
  have "cstr (decimal n) = decimal n"
    using decimal_digits [of n] by (simp add: cstr_digits)
  moreover have "dropWhile isspace (decimal n) = c # cs"
    using c d by (simp add: isdigit_not_special)
  ultimately have "strtol (decimal n) = max LONG_MIN (min LONG_MAX (atoi_digits 0 (c # cs)))"
    using c by (simp add: strtol_def isdigit_not_special del: atoi_digits.simps)
  then have "strtol (decimal n) = max LONG_MIN (min LONG_MAX (int n))"
    unfolding d [symmetric] atoi_digits_decimal .
  with assms have "strtol (decimal n) = int n"
    by (simp add: LONG_MIN_def LONG_MAX_def)
  then show ?thesis
    by (simp add: atoi_def)
qed

text \<open>The range of each token of the grammar.\<close>

lemma decimal_no_dash: "CHR ''-'' \<notin> set (decimal n)"
  using decimal_digits [of n] by (auto dest: isdigit_not_special)

lemma split_at_dash:
  "takeWhile (\<lambda>c. c \<noteq> CHR ''-'') (decimal n @ CHR ''-'' # s) = decimal n"
  "dropWhile (\<lambda>c. c \<noteq> CHR ''-'') (decimal n @ CHR ''-'' # s) = CHR ''-'' # s"
  using decimal_no_dash [of n]
  by (simp_all add: takeWhile_append dropWhile_append)

lemma parse_token_text:
  assumes "token_fits t"
  shows "parse_token (token_text t) =
     (case t of
        Single n \<Rightarrow> \<lparr>r_start = of_nat n, r_end = of_nat n\<rparr>
      | From n \<Rightarrow> \<lparr>r_start = of_nat n, r_end = INT_MAX\<rparr>
      | UpTo m \<Rightarrow> \<lparr>r_start = 1, r_end = of_nat m\<rparr>
      | Between n m \<Rightarrow> \<lparr>r_start = of_nat n, r_end = of_nat m\<rparr>)"
proof (cases t)
  case (Single n)
  with assms show ?thesis
    by (simp add: parse_token_def decimal_no_dash atoi_decimal)
next
  case (From n)
  with assms show ?thesis
    using decimal_digits [of n]
    by (simp add: parse_token_def split_at_dash atoi_decimal Let_def)
next
  case (UpTo m)
  with assms show ?thesis
    by (simp add: parse_token_def atoi_decimal)
next
  case (Between n m)
  with assms show ?thesis
    using decimal_digits [of n] decimal_digits [of m]
    by (simp add: parse_token_def split_at_dash atoi_decimal Let_def)
qed

lemma NUL_not_dash: "NUL \<noteq> CHR ''-''" "NUL \<noteq> CHR '',''"
  by (simp_all add: NUL_def)

lemma token_text_chars:
  "token_text t \<noteq> [] \<and> CHR '','' \<notin> set (token_text t) \<and> NUL \<notin> set (token_text t)"
  using decimal_digits
  by (cases t) (auto dest: isdigit_not_special simp: NUL_not_dash)

lemma selector_text_no_NUL: "NUL \<notin> set (selector_text ts)"
  by (induction ts rule: selector_text.induct)
     (simp_all add: token_text_chars NUL_not_dash)

lemma strtok_r_first:
  assumes "t \<noteq> []" and "CHR '','' \<notin> set t"
  shows "strtok_r (t @ CHR '','' # s) '','' = Some (t, s)"
    and "strtok_r t '','' = Some (t, [])"
proof -
  obtain c cs where t: "t = c # cs"
    using assms(1) by (cases t) auto
  with assms(2) have c: "c \<noteq> CHR '',''" and cs: "CHR '','' \<notin> set cs"
    by auto
  have tw: "takeWhile (\<lambda>c. c \<noteq> CHR '','') (cs @ CHR '','' # s) = cs"
    and dw: "dropWhile (\<lambda>c. c \<noteq> CHR '','') (cs @ CHR '','' # s) = CHR '','' # s"
    using cs by (simp_all add: takeWhile_append dropWhile_append)
  have tw': "takeWhile (\<lambda>c. c \<noteq> CHR '','') cs = cs"
    and dw': "dropWhile (\<lambda>c. c \<noteq> CHR '','') cs = []"
    using cs by (auto simp: takeWhile_eq_all_conv)
  show "strtok_r (t @ CHR '','' # s) '','' = Some (t, s)"
    unfolding t using c by (simp add: strtok_r_def tw dw)
  show "strtok_r t '','' = Some (t, [])"
    unfolding t using c by (simp add: strtok_r_def tw' dw')
qed

lemma parse_tokens_selector_text:
  "parse_tokens (selector_text ts) = map (\<lambda>t. parse_token (token_text t)) ts"
proof (induction ts rule: selector_text.induct)
  case 1
  show ?case
    by (subst parse_tokens.simps) (simp add: strtok_r_def)
next
  case (2 t)
  have e: "parse_tokens [] = []"
    by (subst parse_tokens.simps) (simp add: strtok_r_def)
  show ?case
    using token_text_chars [of t]
    by (subst parse_tokens.simps) (simp add: strtok_r_first e)
next
  case (3 t u ts)
  show ?case
    using token_text_chars [of t] "3.IH"
    by (subst parse_tokens.simps) (simp add: strtok_r_first)
qed

lemma in_range_map:
  "in_range (map f ts) p = (\<exists>t \<in> set ts. r_start (f t) \<le>s p \<and> p \<le>s r_end (f t))"
  by (induction ts) auto

lemma sint_INT_MAX: "sint INT_MAX = 2147483647"
  by (simp add: INT_MAX_def)

lemma sint_le_INT_MAX: "sint (p :: int32) \<le> 2147483647"
  using sint_lt [of p] by simp

lemma token_range_denotes:
  assumes "token_fits t"
  shows "(r_start (parse_token (token_text t)) \<le>s p \<and> p \<le>s r_end (parse_token (token_text t)))
           = denotes t (sint p)"
  unfolding parse_token_text [OF assms]
  using assms sint_le_INT_MAX [of p]
  by (cases t) (simp_all add: word_sle_eq sint_of_nat_int32 sint_INT_MAX)

lemma digit_chars:
  "digit_char 0 = CHR ''0''" "digit_char 1 = CHR ''1''" "digit_char 2 = CHR ''2''"
  "digit_char 3 = CHR ''3''" "digit_char 4 = CHR ''4''" "digit_char 5 = CHR ''5''"
  "digit_char 6 = CHR ''6''" "digit_char 7 = CHR ''7''" "digit_char 8 = CHR ''8''"
  "digit_char 9 = CHR ''9''" "digit_char (Suc 0) = CHR ''1''"
  by code_simp+

subsection \<open>Parsing and membership\<close>

text \<open>
  Claim C4, as stated, fails for a number that is not a value of an \<open>int\<close>: the
  token \<open>2147483648-\<close> is \<open>N-\<close> with \<open>N\<close> one above \<open>INT_MAX\<close> and denotes the
  positions from 2147483648 on, yet after parsing it \<open>in_range\<close> holds of
  position 5.
\<close>

theorem parse_ranges_overflow_counterexample:
  "selector_text [From 2147483648] = ''2147483648-''
   \<and> in_range (parse_ranges ''2147483648-'') 5
   \<and> \<not> denotes (From 2147483648) (sint (5 :: int32))"
proof -
  have "selector_text [From 2147483648] = ''2147483648-''"
    by (simp add: decimal.simps digit_chars)
  moreover have "parse_ranges ''2147483648-'' = [\<lparr>r_start = 2147483648, r_end = INT_MAX\<rparr>]"
    by code_simp
  then have "in_range (parse_ranges ''2147483648-'') 5"
    by (simp add: word_sle_eq INT_MAX_def)
  moreover have "\<not> denotes (From 2147483648) (sint (5 :: int32))"
    by simp
  ultimately show ?thesis
    by blast
qed

text \<open>
  Claim C4, amended. For a selector list written in the token grammar, with
  numbers \<open>N\<close> and \<open>M\<close> of at most \<open>INT_MAX\<close> (2147483647): after \<open>parse_ranges\<close>,
  \<open>in_range\<close> holds of a position exactly when the position lies in the interval
  that one of the tokens denotes, where \<open>N\<close> denotes \<open>(N,N)\<close>, \<open>N-\<close> denotes
  \<open>(N,unbounded)\<close>, \<open>-M\<close> denotes \<open>(1,M)\<close> and \<open>N-M\<close> denotes \<open>(N,M)\<close>. In
  particular, after parsing \<open>2,4-6,8-\<close> it holds exactly of 2, 4, 5, 6 and every
  position from 8 on, and so not of 1, 3 and 7.
\<close>

theorem parse_ranges_interval_semantics:
  assumes "\<forall>t \<in> set ts. token_fits t"
  shows "in_range (parse_ranges (selector_text ts)) p = (\<exists>t \<in> set ts. denotes t (sint p))
       \<and> in_range (parse_ranges ''2,4-6,8-'') p =
           (sint p = 2 \<or> sint p = 4 \<or> sint p = 5 \<or> sint p = 6 \<or> 8 \<le> sint p)"
proof
  have sem: "in_range (parse_ranges (selector_text ts)) p = (\<exists>t \<in> set ts. denotes t (sint p))"
    if "\<forall>t \<in> set ts. token_fits t" for ts
  proof -
    have "parse_ranges (selector_text ts) = map (\<lambda>t. parse_token (token_text t)) ts"
      by (simp add: parse_ranges_def cstr_id selector_text_no_NUL parse_tokens_selector_text)
    then show ?thesis
      using that by (simp add: in_range_map token_range_denotes)
  qed
  from assms show "in_range (parse_ranges (selector_text ts)) p
      = (\<exists>t \<in> set ts. denotes t (sint p))"
    by (rule sem)
  have sel: "selector_text [Single 2, Between 4 6, From 8] = ''2,4-6,8-''"
    by code_simp
  have "in_range (parse_ranges (selector_text [Single 2, Between 4 6, From 8])) p
      = (\<exists>t \<in> set [Single 2, Between 4 6, From 8]. denotes t (sint p))"
    by (rule sem) simp
  then show "in_range (parse_ranges ''2,4-6,8-'') p =
           (sint p = 2 \<or> sint p = 4 \<or> sint p = 5 \<or> sint p = 6 \<or> 8 \<le> sint p)"
    unfolding sel by auto
qed

theorem parse_ranges_interval_semantics_witness:
  "selector_text [UpTo 3, Single 5, Between 10 12, From 20] = ''-3,5,10-12,20-''
   \<and> in_range (parse_ranges ''-3,5,10-12,20-'') 11
   \<and> \<not> in_range (parse_ranges ''-3,5,10-12,20-'') 4
   \<and> in_range (parse_ranges ''2,4-6,8-'') 2147483647
   \<and> \<not> in_range (parse_ranges ''2,4-6,8-'') 7"
proof -
  have sel: "selector_text [UpTo 3, Single 5, Between 10 12, From 20] = ''-3,5,10-12,20-''"
    by code_simp
  have h: "\<forall>t \<in> set [UpTo 3, Single 5, Between 10 12, From 20]. token_fits t"
    by simp
  note sem = parse_ranges_interval_semantics [OF h, unfolded sel]
  from sem [of 11] sem [of 4] sem [of 2147483647] sem [of 7] sel show ?thesis
    by simp
qed

section \<open>Terminators in byte mode and in field mode\<close>

text \<open>
  Claim C3, as stated, fails in field mode on a line that has a NUL byte before its
  first delimiter: the line \<open>a\<close>, NUL, \<open>,b\<close> contains the delimiter \<open>,\<close> and
  the selector \<open>5\<close> selects none of its fields, yet the line is written up to the
  NUL, with its terminator.
\<close>

theorem cut_fields_NUL_before_delimiter_counterexample:
  "cut_fields [CHR ''a'', NUL, CHR '','', CHR ''b'', LF] (parse_ranges ''5'') '','' False LF \<noteq> []"
  by code_simp

text \<open>
  Claim C3, amended. In byte mode every input line gives exactly one output line:
  the bytes written for it are followed by the terminator, which does not occur
  among them, and this is so even when no position of the line is selected. In
  field mode, when the text of the line before its first NUL byte (the whole line,
  when it has none) contains the delimiter and no field of it is selected, nothing
  is written for the line, not even the terminator. Both hold of a line that ends
  with a newline and of a last line that has none.
\<close>

theorem cut_terminator_asymmetry:
  assumes "LF \<notin> set line" and "ld = LF \<or> ld = NUL"
  shows "cut_bytes (line @ LF # rest) ranges ld =
           cut_bytes_for ranges 1 line @ ld # cut_bytes rest ranges ld
       \<and> (line \<noteq> [] \<longrightarrow>
           cut_bytes line ranges ld = cut_bytes_for ranges 1 line @ [ld])
       \<and> ld \<notin> set (cut_bytes_for ranges 1 line)
       \<and> ((\<forall>k < length (cstr line). \<not> in_range ranges (of_nat (Suc k)))
            \<longrightarrow> cut_bytes (line @ LF # rest) ranges ld = ld # cut_bytes rest ranges ld
              \<and> (line \<noteq> [] \<longrightarrow> cut_bytes line ranges ld = [ld]))
       \<and> (first_byte delim \<in> set (cstr line)
            \<and> (\<forall>k < length (tokens (cstr line) (cstr delim)).
                  \<not> in_range ranges (of_nat (Suc k)))
            \<longrightarrow> cut_fields (line @ LF # rest) ranges delim s ld =
                  cut_fields rest ranges delim s ld
              \<and> cut_fields line ranges delim s ld = [])"
proof -
  have step: "cut_bytes (line @ LF # rest) ranges ld =
           cut_bytes_for ranges 1 line @ ld # cut_bytes rest ranges ld"
    using assms(1) by (rule cut_bytes_line)
  have unterm: "cut_bytes line ranges ld = cut_bytes_for ranges 1 line @ [ld]"
    if "line \<noteq> []"
    using assms(1) that by (rule cut_bytes_last)
  have inside: "ld \<notin> set (cut_bytes_for ranges 1 line)"
    using assms(2) by (rule cut_bytes_for_no_terminator)
  have none: "cut_bytes (line @ LF # rest) ranges ld = ld # cut_bytes rest ranges ld
              \<and> (line \<noteq> [] \<longrightarrow> cut_bytes line ranges ld = [ld])"
    if "\<forall>k < length (cstr line). \<not> in_range ranges (of_nat (Suc k))"
  proof -
    from that have "\<forall>k < length (cstr line). \<not> in_range ranges (1 + of_nat k)"
      by simp
    then have "cut_bytes_for ranges 1 line = []"
      by (rule cut_bytes_for_none_selected)
    with step unterm show ?thesis
      by simp
  qed
  have fields: "cut_fields (line @ LF # rest) ranges delim s ld =
                  cut_fields rest ranges delim s ld
              \<and> cut_fields line ranges delim s ld = []"
    if h: "first_byte delim \<in> set (cstr line)
            \<and> (\<forall>k < length (tokens (cstr line) (cstr delim)).
                  \<not> in_range ranges (of_nat (Suc k)))"
  proof -
    from h have found: "strchr_found line (first_byte delim)"
      by (simp add: strchr_found_def)
    from h have ne: "line \<noteq> []"
      by (auto simp: cstr_def)
    let ?tok = "strtok_r (cstr line) (cstr delim)"
    have "\<forall>j < length (case ?tok of None \<Rightarrow> []
                          | Some (token, saveptr) \<Rightarrow> token # tokens saveptr (cstr delim)).
            \<not> in_range ranges (1 + of_nat j)"
      using h by (subst (asm) tokens.simps) (simp split: option.splits)
    then have "cut_fields_while ranges delim ?tok 1 True = ([], True)"
      by (rule cut_fields_while_none_selected)
    with found have "cut_fields_line ranges delim s ld line = []"
      by (simp add: cut_fields_line_text [OF assms(1)])
    then show ?thesis
      by (simp add: cut_fields_stream_line [OF assms(1)] cut_fields_line_chomp [OF assms(1)]
          cut_fields_stream_last [OF assms(1) ne])
  qed
  from step unterm inside none fields show ?thesis
    by blast
qed

theorem cut_terminator_asymmetry_witness:
  "cut_bytes (''a,b,c'' @ LF # []) (parse_ranges ''9'') NUL = [NUL]
   \<and> cut_bytes ''a,b,c'' (parse_ranges ''9'') NUL = [NUL]
   \<and> cut_fields (''a,b,c'' @ LF # []) (parse_ranges ''9'') '','' False NUL = []
   \<and> cut_fields ''a,b,c'' (parse_ranges ''9'') '','' False NUL = []"
proof -
  have r: "parse_ranges ''9'' = [\<lparr>r_start = 9, r_end = 9\<rparr>]"
    by code_simp
  have t: "tokens ''a,b,c'' '','' = [''a'', ''b'', ''c'']"
    by code_simp
  have h1: "LF \<notin> set ''a,b,c''"
    by (simp add: LF_def)
  have h2: "NUL = LF \<or> NUL = NUL"
    by simp
  have h3: "\<forall>k < length (cstr ''a,b,c''). \<not> in_range (parse_ranges ''9'') (of_nat (Suc k))"
    by (simp add: r cstr_def NUL_def less_Suc_eq numeral_eq_Suc word_sle_eq)
  have h4: "first_byte '','' \<in> set (cstr ''a,b,c'')
            \<and> (\<forall>k < length (tokens (cstr ''a,b,c'') (cstr '','')).
                  \<not> in_range (parse_ranges ''9'') (of_nat (Suc k)))"
    by (simp add: r t first_byte_def cstr_def NUL_def less_Suc_eq numeral_eq_Suc word_sle_eq)
  have h5: "''a,b,c'' \<noteq> []"
    by simp
  note asym = cut_terminator_asymmetry [OF h1 h2, of "[]" "parse_ranges ''9''" "'',''" False]
  from asym h3 h5
  have a: "cut_bytes (''a,b,c'' @ LF # []) (parse_ranges ''9'') NUL
             = NUL # cut_bytes [] (parse_ranges ''9'') NUL"
    and a': "cut_bytes ''a,b,c'' (parse_ranges ''9'') NUL = [NUL]"
    by blast+
  from asym h4
  have b: "cut_fields (''a,b,c'' @ LF # []) (parse_ranges ''9'') '','' False NUL
             = cut_fields [] (parse_ranges ''9'') '','' False NUL"
    and b': "cut_fields ''a,b,c'' (parse_ranges ''9'') '','' False NUL = []"
    by blast+
  from a a' b b' show ?thesis
    by (simp add: cut_bytes_eof cut_fields_eof)
qed

section \<open>Byte mode with the full-line selector\<close>

text \<open>
  Claim C5, as stated, fails on a line with an embedded NUL byte: with the selector
  \<open>1-\<close> the line \<open>a\<close>, NUL, \<open>b\<close> is not reproduced.
\<close>

theorem cut_bytes_full_range_counterexample:
  "cut_bytes [CHR ''a'', NUL, CHR ''b'', LF] (parse_ranges ''1-'') LF \<noteq> [CHR ''a'', NUL, CHR ''b'', LF]"
  by code_simp

text \<open>
  Claim C5, amended. For every input line that contains no NUL byte and is shorter
  than \<open>INT_MAX\<close> bytes, byte mode with the selector \<open>1-\<close> writes the line
  exactly as it is, followed by the terminator.
\<close>

theorem cut_bytes_full_range:
  assumes "LF \<notin> set line" and "NUL \<notin> set line" and "length line < 2147483647"
  shows "cut_bytes (line @ LF # rest) (parse_ranges ''1-'') ld =
           line @ ld # cut_bytes rest (parse_ranges ''1-'') ld
       \<and> (line \<noteq> [] \<longrightarrow> cut_bytes line (parse_ranges ''1-'') ld = line @ [ld])"
proof -
  have sel: "filter (\<lambda>(i, c). in_range (parse_ranges ''1-'') (of_nat i)) (enumerate 1 line)
              = enumerate 1 line"
  proof (rule filter_enumerate_all, clarify)
    fix i c
    assume "(i, c) \<in> set (enumerate 1 line)"
    then have "1 \<le> i" "i < 1 + length line"
      by (simp_all add: in_set_enumerate_eq)
    with assms(3) have "0 < i" "i < 2147483648"
      by simp_all
    then show "in_range (parse_ranges ''1-'') (of_nat i)"
      unfolding parse_full_range by (rule in_full_range)
  qed
  have body: "map snd (filter (\<lambda>(i, c). in_range (parse_ranges ''1-'') (of_nat i))
                       (enumerate 1 (cstr line))) = line"
    by (simp only: cstr_id [OF assms(2)] sel map_snd_enumerate)
  from cut_bytes_selected [OF assms(1), of rest "parse_ranges ''1-''" ld] show ?thesis
    unfolding body .
qed

theorem cut_bytes_full_range_witness:
  "cut_bytes (''abc'' @ LF # []) (parse_ranges ''1-'') NUL = ''abc'' @ [NUL]"
proof -
  have h1: "LF \<notin> set ''abc''"
    by (simp add: LF_def)
  have h2: "NUL \<notin> set ''abc''"
    by (simp add: NUL_def)
  have h3: "length ''abc'' < 2147483647"
    by simp
  from cut_bytes_full_range [OF h1 h2 h3, of "[]" NUL] show ?thesis
    by (simp add: cut_bytes_eof)
qed

section \<open>Lines without the delimiter\<close>

text \<open>
  Claim C6, as stated, fails without \<open>-s\<close> on a line that has no delimiter but an
  embedded NUL byte: the line \<open>ab\<close>, NUL, \<open>c\<close> is not written whole.
\<close>

theorem cut_fields_no_delimiter_counterexample:
  "cut_fields [CHR ''a'', CHR ''b'', NUL, CHR ''c'', LF] (parse_ranges ''1'') '','' False LF
     \<noteq> [CHR ''a'', CHR ''b'', NUL, CHR ''c'', LF]"
  by code_simp

text \<open>
  Claim C6, amended. In field mode, for every input line with no occurrence of the
  (one-character) delimiter: with \<open>-s\<close> nothing is written for the line, not even
  an empty line; without \<open>-s\<close> the line is written up to its first NUL byte,
  followed by the terminator, which is the entire line when it contains no NUL byte.
  This holds of a line that ends with a newline and of a last line that has none.
\<close>

theorem cut_fields_no_delimiter:
  assumes "LF \<notin> set line" and "strlen delim = 1" and "first_byte delim \<notin> set line"
  shows "cut_fields (line @ LF # rest) ranges delim True ld =
           cut_fields rest ranges delim True ld
       \<and> cut_fields (line @ LF # rest) ranges delim False ld =
           cstr line @ ld # cut_fields rest ranges delim False ld
       \<and> (NUL \<notin> set line \<longrightarrow>
           cut_fields (line @ LF # rest) ranges delim False ld =
             line @ ld # cut_fields rest ranges delim False ld)
       \<and> (line \<noteq> [] \<longrightarrow>
           cut_fields line ranges delim True ld = []
           \<and> cut_fields line ranges delim False ld = cstr line @ [ld]
           \<and> (NUL \<notin> set line \<longrightarrow> cut_fields line ranges delim False ld = line @ [ld]))"
proof -
  from assms(2) have "first_byte delim \<noteq> NUL"
    by (simp add: strlen_1)
  moreover from assms(3) have "first_byte delim \<notin> set (cstr line)"
    using set_cstr_subset [of line] by auto
  ultimately have nf: "\<not> strchr_found line (first_byte delim)"
    by (simp add: strchr_found_def)
  have l: "cut_fields_line ranges delim s ld line = (if \<not> s then cstr line @ [ld] else [])" for s
    using nf by (simp add: cut_fields_line_text [OF assms(1)])
  have terminated:
    "cut_fields (line @ LF # rest) ranges delim True ld = cut_fields rest ranges delim True ld
     \<and> cut_fields (line @ LF # rest) ranges delim False ld =
           cstr line @ ld # cut_fields rest ranges delim False ld
     \<and> (NUL \<notin> set line \<longrightarrow>
           cut_fields (line @ LF # rest) ranges delim False ld =
             line @ ld # cut_fields rest ranges delim False ld)"
    by (simp add: cut_fields_stream_line [OF assms(1)] cut_fields_line_chomp [OF assms(1)]
        l cstr_id)
  have unterminated:
    "cut_fields line ranges delim True ld = []
     \<and> cut_fields line ranges delim False ld = cstr line @ [ld]
     \<and> (NUL \<notin> set line \<longrightarrow> cut_fields line ranges delim False ld = line @ [ld])"
    if "line \<noteq> []"
    by (simp add: cut_fields_stream_last [OF assms(1) that] l cstr_id)
  from terminated unterminated show ?thesis
    by blast
qed

theorem cut_fields_no_delimiter_witness:
  "cut_fields (''abc'' @ LF # []) (parse_ranges ''1'') '','' True LF = []
   \<and> cut_fields (''abc'' @ LF # []) (parse_ranges ''1'') '','' False LF = ''abc'' @ [LF]
   \<and> cut_fields ''abc'' (parse_ranges ''1'') '','' True LF = []
   \<and> cut_fields ''abc'' (parse_ranges ''1'') '','' False LF = ''abc'' @ [LF]"
proof -
  have h1: "LF \<notin> set ''abc''"
    by (simp add: LF_def)
  have h2: "strlen '','' = 1"
    by (simp add: strlen_def cstr_def NUL_def)
  have h3: "first_byte '','' \<notin> set ''abc''"
    by (simp add: first_byte_def)
  have h4: "NUL \<notin> set ''abc''"
    by (simp add: NUL_def)
  have h5: "''abc'' \<noteq> []"
    by simp
  note nd = cut_fields_no_delimiter [OF h1 h2 h3, of "[]" "parse_ranges ''1''" LF]
  from nd h4 h5
  have "cut_fields (''abc'' @ LF # []) (parse_ranges ''1'') '','' True LF
          = cut_fields [] (parse_ranges ''1'') '','' True LF"
    and "cut_fields (''abc'' @ LF # []) (parse_ranges ''1'') '','' False LF
          = ''abc'' @ LF # cut_fields [] (parse_ranges ''1'') '','' False LF"
    and "cut_fields ''abc'' (parse_ranges ''1'') '','' True LF = []"
    and "cut_fields ''abc'' (parse_ranges ''1'') '','' False LF = ''abc'' @ [LF]"
    by blast+
  then show ?thesis
    by (simp add: cut_fields_eof)
qed

section \<open>Operands that fail to open\<close>

lemma cut_files_named:
  "\<forall>f \<in> set list. cstr f \<noteq> ''-'' \<Longrightarrow>
   out (cut_files st ranges fopen list stdin s) =
     concat (map (\<lambda>f. case fopen f of Inl e \<Rightarrow> [] | Inr fp \<Rightarrow> cut_stream st ranges fp) list)
   \<and> err (cut_files st ranges fopen list stdin s) =
     concat (map (\<lambda>f. case fopen f of
                          Inl e \<Rightarrow> [builtin_error (cstr f @ '': '' @ e)]
                        | Inr fp \<Rightarrow> []) list)
   \<and> status (cut_files st ranges fopen list stdin s) =
     (if \<exists>f \<in> set list. isl (fopen f) then EXECUTION_FAILURE else s)"
proof (induction list arbitrary: s)
  case Nil
  then show ?case by simp
next
  case (Cons f list)
  then have named: "cstr f \<noteq> ''-''" and rest: "\<forall>f \<in> set list. cstr f \<noteq> ''-''"
    by simp_all
  note IH = Cons.IH [OF rest]
  show ?case
  proof (cases "fopen f")
    case (Inl e)
    with named IH [of EXECUTION_FAILURE] show ?thesis
      by (simp add: Let_def)
  next
    case (Inr fp)
    with named IH [of s] show ?thesis
      by (simp add: Let_def)
  qed
qed

text \<open>
  Claim C7. When the options are accepted and every operand names a file (none is
  \<open>-\<close>): standard output is, in the order of the operands, the projected output of
  each file that opens, whole; each file that fails to open is reported by one
  message on the error stream; and the return value is \<open>EXECUTION_FAILURE\<close> exactly
  when at least one file failed to open.
\<close>

theorem cut_files_open_failure:
  assumes "getopt_loop options initial_opts = Inr st"
    and "mode st \<noteq> 0"
    and "parse_ranges (range_list st) \<noteq> []"
    and "list \<noteq> []"
    and "\<forall>f \<in> set list. cstr f \<noteq> ''-''"
  shows "out (cut_builtin options list fopen stdin) =
           concat (map (\<lambda>f. case fopen f of
                                Inl e \<Rightarrow> []
                              | Inr fp \<Rightarrow> cut_stream st (parse_ranges (range_list st)) fp) list)
       \<and> err (cut_builtin options list fopen stdin) =
           concat (map (\<lambda>f. case fopen f of
                                Inl e \<Rightarrow> [builtin_error (cstr f @ '': '' @ e)]
                              | Inr fp \<Rightarrow> []) list)
       \<and> status (cut_builtin options list fopen stdin) =
           (if \<exists>f \<in> set list. isl (fopen f) then EXECUTION_FAILURE else EXECUTION_SUCCESS)"
  using assms(1-4) cut_files_named [OF assms(5)]
  by (simp add: cut_builtin_def Let_def)

theorem cut_files_open_failure_witness:
  "out (cut_builtin [(opt_char CHR ''f'', ''1,3''), (opt_char CHR ''d'', '','')]
         [''missing'', ''present'']
         (\<lambda>f. if f = ''present'' then Inr ''a,b,c\<newline>d,e,f\<newline>'' else Inl ''No such file or directory'')
         []) = ''a,c\<newline>d,f\<newline>''
   \<and> err (cut_builtin [(opt_char CHR ''f'', ''1,3''), (opt_char CHR ''d'', '','')]
         [''missing'', ''present'']
         (\<lambda>f. if f = ''present'' then Inr ''a,b,c\<newline>d,e,f\<newline>'' else Inl ''No such file or directory'')
         []) = [builtin_error ''missing: No such file or directory'']
   \<and> status (cut_builtin [(opt_char CHR ''f'', ''1,3''), (opt_char CHR ''d'', '','')]
         [''missing'', ''present'']
         (\<lambda>f. if f = ''present'' then Inr ''a,b,c\<newline>d,e,f\<newline>'' else Inl ''No such file or directory'')
         []) = EXECUTION_FAILURE"
proof -
  let ?st = "\<lparr>range_list = ''1,3'', delimiter = '','', mode = opt_char CHR ''f'',
              suppress_no_delim = False, line_delim = LF\<rparr>"
  have h1: "getopt_loop [(opt_char CHR ''f'', ''1,3''), (opt_char CHR ''d'', '','')] initial_opts
              = Inr ?st"
    by (simp add: initial_opts_def strlen_def cstr_def NUL_def)
  have h2: "mode ?st \<noteq> 0"
    by simp
  have r: "parse_ranges ''1,3'' = [\<lparr>r_start = 1, r_end = 1\<rparr>, \<lparr>r_start = 3, r_end = 3\<rparr>]"
    by code_simp
  have h3: "parse_ranges (range_list ?st) \<noteq> []"
    by (simp add: r)
  have h4: "[''missing'', ''present''] \<noteq> []"
    by simp
  have h5: "\<forall>f \<in> set [''missing'', ''present'']. cstr f \<noteq> ''-''"
    by (simp add: cstr_def NUL_def)
  have c: "cut_fields ''a,b,c\<newline>d,e,f\<newline>'' [\<lparr>r_start = 1, r_end = 1\<rparr>, \<lparr>r_start = 3, r_end = 3\<rparr>]
             '','' False LF = ''a,c\<newline>d,f\<newline>''"
    by code_simp
  show ?thesis
    using cut_files_open_failure [OF h1 h2 h3 h4 h5]
    by (simp add: r c cut_stream_def cstr_def NUL_def)
qed

section \<open>The \<open>-z\<close> option\<close>

text \<open>
  Claim C8. A run whose options include \<open>-z\<close>, compared with the run that has the
  same options without \<open>-z\<close> on the same operands, files and standard input: the
  return value and the error messages are the same, and the output is the same
  bytes with every newline replaced by a NUL byte. The output without \<open>-z\<close>
  contains no NUL byte, so every NUL byte written with \<open>-z\<close> stands where the
  other run, which reads the same lines split at the newlines of the input, wrote
  a newline.
\<close>

theorem cut_z_changes_terminator_only:
  assumes "\<exists>a. (opt_char CHR ''z'', a) \<in> set options"
  shows "status (cut_builtin options list fopen stdin) =
           status (cut_builtin (filter (\<lambda>(opt, a). opt \<noteq> opt_char CHR ''z'') options)
                     list fopen stdin)
       \<and> err (cut_builtin options list fopen stdin) =
           err (cut_builtin (filter (\<lambda>(opt, a). opt \<noteq> opt_char CHR ''z'') options)
                  list fopen stdin)
       \<and> out (cut_builtin options list fopen stdin) =
           map (\<lambda>c. if c = LF then NUL else c)
             (out (cut_builtin (filter (\<lambda>(opt, a). opt \<noteq> opt_char CHR ''z'') options)
                     list fopen stdin))
       \<and> NUL \<notin> set (out (cut_builtin (filter (\<lambda>(opt, a). opt \<noteq> opt_char CHR ''z'') options)
                             list fopen stdin))"
proof -
  define nz where "nz = filter (\<lambda>(opt, a). opt \<noteq> opt_char CHR ''z'') options"
  have z: "getopt_loop options initial_opts =
           (case getopt_loop nz initial_opts of
              Inl m \<Rightarrow> Inl m
            | Inr st \<Rightarrow> Inr (st\<lparr>line_delim := NUL\<rparr>))"
    using assms getopt_loop_z [of options initial_opts]
    unfolding nz_def by (simp split: sum.splits)
  have inv: "line_delim st = LF \<and> strlen (delimiter st) = 1"
    if r: "getopt_loop nz initial_opts = Inr st" for st
  proof
    have "\<forall>(opt, a) \<in> set nz. opt \<noteq> opt_char CHR ''z''"
      unfolding nz_def by auto
    from getopt_loop_no_z [OF this r] show "line_delim st = LF"
      by (simp add: initial_opts_def)
    have "strlen (delimiter initial_opts) = 1"
      by (simp add: initial_opts_def strlen_def cstr_def NUL_def)
    with r show "strlen (delimiter st) = 1"
      by (rule getopt_loop_delimiter)
  qed
  from cut_builtin_z [OF refl z inv] show ?thesis
    unfolding nz_def .
qed

theorem cut_z_changes_terminator_only_witness:
  "out (cut_builtin [(opt_char CHR ''z'', []), (opt_char CHR ''b'', ''2-'')] [] (\<lambda>f. Inl [])
          ''abc\<newline>de\<newline>'')
     = [CHR ''b'', CHR ''c'', NUL, CHR ''e'', NUL]
   \<and> out (cut_builtin [(opt_char CHR ''b'', ''2-'')] [] (\<lambda>f. Inl []) ''abc\<newline>de\<newline>'')
     = ''bc\<newline>e\<newline>''"
proof -
  have h: "\<exists>a. (opt_char CHR ''z'', a) \<in> set [(opt_char CHR ''z'', []), (opt_char CHR ''b'', ''2-'')]"
    by simp
  have e: "out (cut_builtin [(opt_char CHR ''b'', ''2-'')] [] (\<lambda>f. Inl []) ''abc\<newline>de\<newline>'')
             = ''bc\<newline>e\<newline>''"
    by code_simp
  from cut_z_changes_terminator_only [OF h, of "[]" "\<lambda>f. Inl []" "''abc\<newline>de\<newline>''"] e
  show ?thesis
    by (simp add: LF_def)
qed

section \<open>Usage errors\<close>

lemma getopt_loop_keeps_mode:
  "\<forall>(opt, a) \<in> set options. \<not> mode_option opt \<Longrightarrow> getopt_loop options st = Inr st'
   \<Longrightarrow> mode st' = mode st"
  by (induction options arbitrary: st) (auto simp: mode_option_def split: if_splits)

lemma getopt_loop_second_mode:
  "mode st \<noteq> 0 \<Longrightarrow> \<exists>(opt, a) \<in> set options. mode_option opt
   \<Longrightarrow> \<exists>m. getopt_loop options st = Inl m"
proof (induction options arbitrary: st)
  case Nil
  then show ?case by simp
next
  case (Cons x options)
  obtain opt a where x: "x = (opt, a)" by (cases x)
  show ?case
  proof (cases "mode_option opt")
    case True
    with Cons.prems(1) show ?thesis
      unfolding x by (auto simp: mode_option_def)
  next
    case False
    with Cons.prems(2) x have "\<exists>(opt, a) \<in> set options. mode_option opt"
      by auto
    with Cons.IH Cons.prems(1)
    have IH: "\<And>st'. mode st' = mode st \<Longrightarrow> \<exists>m. getopt_loop options st' = Inl m"
      by simp
    from False show ?thesis
      unfolding x by (simp add: mode_option_def IH)
  qed
qed

lemma getopt_loop_two_modes:
  "2 \<le> length (filter (\<lambda>(opt, a). mode_option opt) options)
   \<Longrightarrow> \<exists>m. getopt_loop options st = Inl m"
proof (induction options arbitrary: st)
  case Nil
  then show ?case by simp
next
  case (Cons x options)
  obtain opt a where x: "x = (opt, a)" by (cases x)
  show ?case
  proof (cases "mode_option opt")
    case True
    with Cons.prems x have "filter (\<lambda>(opt, a). mode_option opt) options \<noteq> []"
      by auto
    then have ex: "\<exists>(opt, a) \<in> set options. mode_option opt"
      by (auto simp: filter_empty_conv)
    have nz: "opt \<noteq> 0"
      using True by (auto simp: mode_option_def)
    show ?thesis
    proof (cases "mode st = 0")
      case z: True
      have "\<exists>m. getopt_loop options (st\<lparr>mode := opt, range_list := a\<rparr>) = Inl m"
        by (rule getopt_loop_second_mode) (use nz ex in simp_all)
      with True z show ?thesis
        unfolding x by (auto simp: mode_option_def)
    next
      case False
      with True show ?thesis
        unfolding x by (auto simp: mode_option_def)
    qed
  next
    case False
    with Cons.prems x have "2 \<le> length (filter (\<lambda>(opt, a). mode_option opt) options)"
      by simp
    from Cons.IH [OF this] False show ?thesis
      unfolding x by (auto simp: mode_option_def)
  qed
qed

lemma getopt_loop_bad_delimiter:
  "(opt_char CHR ''d'', a) \<in> set options \<Longrightarrow> strlen a \<noteq> 1
   \<Longrightarrow> \<exists>m. getopt_loop options st = Inl m"
  by (induction options arbitrary: st) auto

text \<open>
  Claim C9. Whenever none of \<open>-b\<close>, \<open>-c\<close>, \<open>-f\<close> is among the options, or more
  than one of them is (the same one twice included), or a \<open>-d\<close> argument is not
  exactly one character long, \<open>cut\<close> returns \<open>EX_USAGE\<close> and writes nothing to
  standard output.
\<close>

theorem cut_usage_errors:
  assumes "(\<forall>(opt, a) \<in> set options. \<not> mode_option opt)
         \<or> 2 \<le> length (filter (\<lambda>(opt, a). mode_option opt) options)
         \<or> (\<exists>a. (opt_char CHR ''d'', a) \<in> set options \<and> strlen a \<noteq> 1)"
  shows "status (cut_builtin options list fopen stdin) = EX_USAGE
       \<and> out (cut_builtin options list fopen stdin) = []"
proof -
  consider m where "getopt_loop options initial_opts = Inl m"
    | st where "getopt_loop options initial_opts = Inr st" "mode st = 0"
    using assms
  proof (elim disjE)
    assume none: "\<forall>(opt, a) \<in> set options. \<not> mode_option opt"
    assume a: "\<And>m. getopt_loop options initial_opts = Inl m \<Longrightarrow> thesis"
      and b: "\<And>st. getopt_loop options initial_opts = Inr st \<Longrightarrow> mode st = 0 \<Longrightarrow> thesis"
    show thesis
    proof (cases "getopt_loop options initial_opts")
      case (Inl m)
      then show ?thesis by (rule a)
    next
      case (Inr st)
      from getopt_loop_keeps_mode [OF none Inr] have "mode st = 0"
        by (simp add: initial_opts_def)
      with Inr show ?thesis by (rule b)
    qed
  next
    assume "2 \<le> length (filter (\<lambda>(opt, a). mode_option opt) options)"
    then obtain m where "getopt_loop options initial_opts = Inl m"
      using getopt_loop_two_modes by blast
    moreover assume "\<And>m. getopt_loop options initial_opts = Inl m \<Longrightarrow> thesis"
    ultimately show thesis by blast
  next
    assume "\<exists>a. (opt_char CHR ''d'', a) \<in> set options \<and> strlen a \<noteq> 1"
    then obtain m where "getopt_loop options initial_opts = Inl m"
      using getopt_loop_bad_delimiter by blast
    moreover assume "\<And>m. getopt_loop options initial_opts = Inl m \<Longrightarrow> thesis"
    ultimately show thesis by blast
  qed
  then show ?thesis
    by cases (simp_all add: cut_builtin_def)
qed

theorem cut_usage_errors_witness:
  "status (cut_builtin [(opt_char CHR ''s'', [])] [] (\<lambda>f. Inl []) ''a,b\<newline>'') = EX_USAGE
   \<and> out (cut_builtin [(opt_char CHR ''s'', [])] [] (\<lambda>f. Inl []) ''a,b\<newline>'') = []
   \<and> status (cut_builtin [(opt_char CHR ''b'', ''1''), (opt_char CHR ''f'', ''2'')] [] (\<lambda>f. Inl []) ''a,b\<newline>'') = EX_USAGE
   \<and> out (cut_builtin [(opt_char CHR ''b'', ''1''), (opt_char CHR ''f'', ''2'')] [] (\<lambda>f. Inl []) ''a,b\<newline>'') = []
   \<and> status (cut_builtin [(opt_char CHR ''f'', ''1''), (opt_char CHR ''d'', ''ab'')] [] (\<lambda>f. Inl []) ''a,b\<newline>'') = EX_USAGE
   \<and> out (cut_builtin [(opt_char CHR ''f'', ''1''), (opt_char CHR ''d'', ''ab'')] [] (\<lambda>f. Inl []) ''a,b\<newline>'') = []"
proof -
  have h1: "(\<forall>(opt, a) \<in> set [(opt_char CHR ''s'', [])]. \<not> mode_option opt)
         \<or> 2 \<le> length (filter (\<lambda>(opt, a). mode_option opt) [(opt_char CHR ''s'', [])])
         \<or> (\<exists>a. (opt_char CHR ''d'', a) \<in> set [(opt_char CHR ''s'', [])] \<and> strlen a \<noteq> 1)"
    by (simp add: mode_option_def)
  have h2: "(\<forall>(opt, a) \<in> set [(opt_char CHR ''b'', ''1''), (opt_char CHR ''f'', ''2'')]. \<not> mode_option opt)
         \<or> 2 \<le> length (filter (\<lambda>(opt, a). mode_option opt) [(opt_char CHR ''b'', ''1''), (opt_char CHR ''f'', ''2'')])
         \<or> (\<exists>a. (opt_char CHR ''d'', a) \<in> set [(opt_char CHR ''b'', ''1''), (opt_char CHR ''f'', ''2'')] \<and> strlen a \<noteq> 1)"
    by (simp add: mode_option_def)
  have h3: "(\<forall>(opt, a) \<in> set [(opt_char CHR ''f'', ''1''), (opt_char CHR ''d'', ''ab'')]. \<not> mode_option opt)
         \<or> 2 \<le> length (filter (\<lambda>(opt, a). mode_option opt) [(opt_char CHR ''f'', ''1''), (opt_char CHR ''d'', ''ab'')])
         \<or> (\<exists>a. (opt_char CHR ''d'', a) \<in> set [(opt_char CHR ''f'', ''1''), (opt_char CHR ''d'', ''ab'')] \<and> strlen a \<noteq> 1)"
    by (simp add: mode_option_def strlen_def cstr_def NUL_def)
  show ?thesis
    using cut_usage_errors [OF h1] cut_usage_errors [OF h2] cut_usage_errors [OF h3]
    by simp
qed

section \<open>Byte mode and embedded NUL bytes\<close>

text \<open>
  Claim C10. In byte mode, for every input line, what is written is the bytes at the
  selected positions among those before the first NUL byte of the line (the newline
  ends the line), followed by the terminator: a byte at or after an embedded NUL is
  never written, whatever the ranges select, and the terminator still is. The same
  holds for a last line that has no newline. So a line with an embedded NUL is
  treated as the line that ends before the NUL.
\<close>

theorem cut_bytes_stops_at_NUL:
  assumes "LF \<notin> set line"
  shows "cut_bytes (line @ LF # rest) ranges ld =
           map snd (filter (\<lambda>(i, c). in_range ranges (of_nat i)) (enumerate 1 (cstr line)))
             @ ld # cut_bytes rest ranges ld
       \<and> (line \<noteq> [] \<longrightarrow>
           cut_bytes line ranges ld =
             map snd (filter (\<lambda>(i, c). in_range ranges (of_nat i)) (enumerate 1 (cstr line)))
               @ [ld])
       \<and> (line = pre @ NUL # post \<longrightarrow>
           cut_bytes (line @ LF # rest) ranges ld = cut_bytes (pre @ LF # rest) ranges ld)"
proof -
  note sel = cut_bytes_selected [OF assms, of rest ranges ld]
  have "cut_bytes (line @ LF # rest) ranges ld = cut_bytes (pre @ LF # rest) ranges ld"
    if l: "line = pre @ NUL # post"
  proof -
    from assms l have "LF \<notin> set pre"
      by simp
    from cut_bytes_selected [OF this, of rest ranges ld] sel show ?thesis
      unfolding l cstr_append_NUL by simp
  qed
  with sel show ?thesis
    by blast
qed

theorem cut_bytes_stops_at_NUL_witness:
  "cut_bytes ([CHR ''a'', CHR ''b'', NUL, CHR ''c'', CHR ''d''] @ LF # []) (parse_ranges ''2-'') LF
     = [CHR ''b'', LF]"
proof -
  have h: "LF \<notin> set [CHR ''a'', CHR ''b'', NUL, CHR ''c'', CHR ''d'']"
    by (simp add: LF_def NUL_def)
  have r: "parse_ranges ''2-'' = [\<lparr>r_start = 2, r_end = INT_MAX\<rparr>]"
    by code_simp
  have c: "cstr [CHR ''a'', CHR ''b'', NUL, CHR ''c'', CHR ''d''] = ''ab''"
    by (simp add: cstr_def NUL_def)
  from cut_bytes_stops_at_NUL [OF h, of "[]" "parse_ranges ''2-''" LF]
  have "cut_bytes ([CHR ''a'', CHR ''b'', NUL, CHR ''c'', CHR ''d''] @ LF # []) (parse_ranges ''2-'') LF
     = map snd (filter (\<lambda>(i, c). in_range (parse_ranges ''2-'') (of_nat i))
          (enumerate 1 (cstr [CHR ''a'', CHR ''b'', NUL, CHR ''c'', CHR ''d''])))
             @ LF # cut_bytes [] (parse_ranges ''2-'') LF"
    by (rule conjunct1)
  then show ?thesis
    by (simp add: c r cut_bytes_eof word_sle_eq INT_MAX_def)
qed

end
